theory Spec2Isabelle
  imports Main "HOL-Library.Sublist"
begin

section \<open>Data model of pkg/project/auth/watch.go\<close>

text \<open>
  A namespace as the watcher sees it: the name the watcher keys on, and a resource
  version standing for the rest of the object.
\<close>

record namespace =
  Name :: string
  ResourceVersion :: string

datatype event_type = Added | Modified | Deleted | Error

text \<open>
  The object of a \<open>watch.Event\<close>: a project converted from a namespace, or the
  \<open>unversioned.Status\<close> built by \<open>makeErrorEvent\<close> (its status is always
  \<open>StatusFailure\<close>, so only the message is kept).
\<close>

datatype object = Project namespace | Status string

record event =
  Type :: event_type
  Object :: object

text \<open>
  Modelled from the spec: \<open>projectutil.ConvertNamespace\<close> is not among the sources; the
  stream event carries the resolved resource representation, which is kept whole.
\<close>

definition ConvertNamespace :: "namespace \<Rightarrow> object" where
  "ConvertNamespace ns = Project ns"

definition makeErrorEvent :: "string \<Rightarrow> event" where
  "makeErrorEvent err = \<lparr>Type = Error, Object = Status err\<rparr>"

text \<open>The name of the resource an event is about (none for a status object).\<close>

fun event_name :: "event \<Rightarrow> string option" where
  "event_name e = (case Object e of Project ns \<Rightarrow> Some (Name ns) | Status m \<Rightarrow> None)"

text \<open>The arguments of one \<open>GroupMembershipChanged\<close> call.\<close>

record change =
  namespaceName :: string
  latestUsers :: "string set"
  latestGroups :: "string set"
  removedUsers :: "string set"
  removedGroups :: "string set"
  addedUsers :: "string set"
  addedGroups :: "string set"

text \<open>
  The program counter of the \<open>Watch\<close> goroutine, at the granularity of its channel
  operations: the head of the snapshot loop with its index, the \<open>select\<close> of the
  steady loop, a pending \<open>emit\<close> (with the point where the loop continues when
  \<open>emit\<close> returns), and the deferred calls that run on return.
\<close>

datatype relay_pc =
    Snapshot nat
  | Steady
  | Emitting event relay_pc
  | Returning
  | Closing
  | Exited

text \<open>
  The watcher with the collaborators it shares state with. Fields of the Go struct:
  \<open>username\<close>, \<open>groups\<close>, \<open>cacheIncoming\<close> (the buffered channel's content, oldest
  first, with its capacity), \<open>cacheError\<close> (the channel of capacity one), \<open>userStop\<close>
  and \<open>outgoingClosed\<close> (whether the channel has been closed), \<open>initialProjects\<close>,
  \<open>knownProjects\<close>. Of \<open>authCache\<close> only this watcher's registration is kept; the
  package variable \<open>watchChannelHWM\<close> is a field; \<open>delivered\<close> is what the reader of
  \<open>ResultChan\<close> has received. The remaining fields are history variables that no
  operation reads: the events ever enqueued, and counters for the sends on
  \<open>cacheError\<close>, the \<open>RemoveWatcher\<close> calls of each role and the closes of
  \<open>outgoing\<close>; \<open>intakeBlocked\<close> records that a handler call parked the dispatcher, and
  \<open>fault\<close> a run-time panic.
\<close>

record watcher =
  username :: string
  groups :: "string list"
  cacheIncoming :: "event list"
  cacheIncomingCap :: nat
  cacheError :: "string option"
  outgoingClosed :: bool
  userStop :: bool
  initialProjects :: "namespace list"
  knownProjects :: "string set"
  registered :: bool
  watchChannelHWM :: int
  pc :: relay_pc
  delivered :: "event list"
  enqueued :: "event list"
  errorSends :: nat
  intakeRemoves :: nat
  relayRemoves :: nat
  outgoingCloses :: nat
  intakeBlocked :: bool
  fault :: "string option"

text \<open>A call either returns or parks its goroutine on a channel send for good.\<close>

datatype 'a outcome = Returns 'a | Blocks 'a

fun state_of :: "'a outcome \<Rightarrow> 'a" where
  "state_of (Returns s) = s"
| "state_of (Blocks s) = s"

section \<open>Collaborators\<close>

text \<open>\<open>sets.String.HasAny\<close>: whether any of the items is in the set.\<close>

fun HasAny :: "string set \<Rightarrow> string list \<Rightarrow> bool" where
  "HasAny s [] = False"
| "HasAny s (item # items) = (if item \<in> s then True else HasAny s items)"

text \<open>
  Modelled from the spec: \<open>RemoveWatcher\<close> of the membership cache is not among the
  sources; it is idempotent and after it no further change is delivered to the watcher.
  The caller's role decides which counter records the call.
\<close>

definition RemoveWatcher_intake :: "watcher \<Rightarrow> watcher" where
  "RemoveWatcher_intake w = w\<lparr>registered := False, intakeRemoves := intakeRemoves w + 1\<rparr>"

definition RemoveWatcher_relay :: "watcher \<Rightarrow> watcher" where
  "RemoveWatcher_relay w = w\<lparr>registered := False, relayRemoves := relayRemoves w + 1\<rparr>"

text \<open>
  Modelled from the spec: \<open>etcd.HighWaterMark.Update\<close> is not among the sources; it keeps
  the maximum depth seen and tells whether the depth given is a new maximum.
\<close>

definition hwm_Update :: "int \<Rightarrow> int \<Rightarrow> bool \<times> int" where
  "hwm_Update hwm current = (if current \<le> hwm then (False, hwm) else (True, current))"

section \<open>Construction\<close>

text \<open>
  \<open>authCache.List\<close> returns a pointer to a list (possibly nil) and an error (possibly
  nil); the constructor drops the error and reads \<open>namespaces.Items\<close>, which panics on
  a nil pointer. The relay goroutine has not run, nothing is delivered, and the
  constructor does not register the watcher.
\<close>

type_synonym list_result = "namespace list option \<times> string option"

definition NewUserProjectWatcher ::
  "string \<Rightarrow> string list \<Rightarrow> (string \<times> string list \<Rightarrow> list_result) \<Rightarrow> bool \<Rightarrow> string + watcher" where
  "NewUserProjectWatcher uname grps authCache_List includeAllExistingProjects =
     (case fst (authCache_List (uname, grps)) of
        None \<Rightarrow> Inl ''nil pointer dereference''
      | Some items \<Rightarrow>
          Inr \<lparr>username = uname, groups = grps,
               cacheIncoming = [], cacheIncomingCap = 1000,
               cacheError = None,
               outgoingClosed = False, userStop = False,
               initialProjects = (if includeAllExistingProjects then [] @ items else []),
               knownProjects = foldl (\<lambda>known ns. insert (Name ns) known) {} items,
               registered = False,
               watchChannelHWM = 0,
               pc = Snapshot 0,
               delivered = [], enqueued = [],
               errorSends = 0, intakeRemoves = 0, relayRemoves = 0, outgoingCloses = 0,
               intakeBlocked = False, fault = None\<rparr>)"

text \<open>
  Modelled from the spec: the subscription that adds the watcher to the dispatcher's
  registry is made by the caller of the constructor, which is not among the sources.
\<close>

definition subscribe :: "watcher \<Rightarrow> watcher" where
  "subscribe w = w\<lparr>registered := True\<rparr>"

section \<open>The intake handler\<close>

definition hasAccess :: "watcher \<Rightarrow> change \<Rightarrow> bool" where
  "hasAccess w c = (username w \<in> latestUsers c \<or> HasAny (latestGroups c) (groups w))"

definition removed :: "watcher \<Rightarrow> change \<Rightarrow> bool" where
  "removed w c =
     (\<not> hasAccess w c \<and> (username w \<in> removedUsers c \<or> HasAny (removedGroups c) (groups w)))"

text \<open>
  The \<open>select\<close> with a \<open>default\<close> branch of both cases: the send on \<open>cacheIncoming\<close>
  goes through when the buffer has room; otherwise the watcher is removed from the cache
  and the error is sent on \<open>cacheError\<close>, a send that blocks when that channel is full.
\<close>

definition enqueue :: "watcher \<Rightarrow> event \<Rightarrow> string \<Rightarrow> watcher outcome" where
  "enqueue w ev msg =
     (if length (cacheIncoming w) < cacheIncomingCap w
      then Returns (w\<lparr>cacheIncoming := cacheIncoming w @ [ev], enqueued := enqueued w @ [ev]\<rparr>)
      else (let w' = RemoveWatcher_intake w in
            case cacheError w' of
              None \<Rightarrow> Returns (w'\<lparr>cacheError := Some msg, errorSends := errorSends w' + 1\<rparr>)
            | Some pending \<Rightarrow> Blocks w'))"

text \<open>
  \<open>getNamespace\<close> is \<open>projectCache.GetNamespace\<close> as it answers at the time of the call:
  an error message or the namespace.
\<close>

definition GroupMembershipChanged ::
  "(string \<Rightarrow> string + namespace) \<Rightarrow> change \<Rightarrow> watcher \<Rightarrow> watcher outcome" where
  "GroupMembershipChanged getNamespace c w =
     (if removed w c then
        (if namespaceName c \<notin> knownProjects w then Returns w
         else enqueue (w\<lparr>knownProjects := knownProjects w - {namespaceName c}\<rparr>)
                \<lparr>Type = Deleted,
                 Object = ConvertNamespace \<lparr>Name = namespaceName c, ResourceVersion = []\<rparr>\<rparr>
                ''delete notification timeout'')
      else if hasAccess w c then
        (case getNamespace (namespaceName c) of
           Inl err \<Rightarrow> Returns w
         | Inr ns \<Rightarrow>
             enqueue (w\<lparr>knownProjects := insert (Name ns) (knownProjects w)\<rparr>)
               \<lparr>Type = (if namespaceName c \<in> knownProjects w then Modified else Added),
                Object = ConvertNamespace ns\<rparr>
               ''add notification timeout'')
      else Returns w)"

section \<open>Stop\<close>

text \<open>
  The body of \<open>Stop\<close> between \<open>Lock\<close> and the deferred \<open>Unlock\<close>. Closing a closed
  channel panics in Go; the guard in front of the close is part of the model. The lock
  itself is modelled with the concurrent callers below.
\<close>

definition close_chan :: "bool \<Rightarrow> string + bool" where
  "close_chan closed = (if closed then Inl ''close of closed channel'' else Inr True)"

definition Stop :: "watcher \<Rightarrow> string + watcher" where
  "Stop w =
     (if userStop w then Inr w
      else (case close_chan (userStop w) of
              Inl p \<Rightarrow> Inl p
            | Inr closed \<Rightarrow> Inr (w\<lparr>userStop := closed\<rparr>)))"







section \<open>The relay loop and the interleaving of the three roles\<close>

text \<open>
  One step of the system: the dispatcher delivers a change (with what the project cache
  answers at that moment), somebody calls \<open>Stop\<close>, or the \<open>Watch\<close> goroutine performs
  its next channel operation. Where a \<open>select\<close> has several ready cases Go picks any of
  them, so the case taken is part of the step: \<open>RecvError\<close>, \<open>RecvStop\<close> and
  \<open>RecvEvent\<close> are the three cases of the steady loop, \<open>SendOutgoing\<close> and \<open>RecvStop\<close>
  the two cases of \<open>emit\<close> (the send goes through when the reader of \<open>ResultChan\<close>
  receives), and \<open>Advance\<close> is a step without a choice.
\<close>

datatype action =
    Notify change "string \<Rightarrow> string + namespace"
  | StopCall
  | Advance
  | RecvError
  | RecvStop
  | RecvEvent
  | SendOutgoing

definition added_event :: "namespace \<Rightarrow> event" where
  "added_event ns = \<lparr>Type = Added, Object = ConvertNamespace ns\<rparr>"

text \<open>
  The default \<open>emit\<close> of the constructor, called with event \<open>e\<close> at a point from which
  the loop continues at \<open>k\<close>: a \<open>select\<close> between the send on the unbuffered \<open>outgoing\<close>,
  which goes through when the consumer receives, and the receive on \<open>userStop\<close>, which is
  ready once that channel is closed. A send on a closed channel panics, and the panic
  unwinds to the deferred calls.
\<close>

definition emit :: "action \<Rightarrow> event \<Rightarrow> relay_pc \<Rightarrow> watcher \<Rightarrow> watcher option" where
  "emit a e k w =
     (case a of
        SendOutgoing \<Rightarrow>
          (if outgoingClosed w
           then Some (w\<lparr>fault := Some ''send on closed channel'', pc := Returning\<rparr>)
           else Some (w\<lparr>delivered := delivered w @ [e], pc := k\<rparr>))
      | RecvStop \<Rightarrow> (if userStop w then Some (w\<lparr>pc := k\<rparr>) else None)
      | _ \<Rightarrow> None)"

text \<open>
  The body of \<open>Watch\<close>, one channel operation at a time. The deferred calls run in
  reverse order of their \<open>defer\<close> statements: \<open>HandleCrash\<close> (nothing to do without a
  panic), \<open>RemoveWatcher\<close>, then the close of \<open>outgoing\<close>. The result is \<open>None\<close> when
  the chosen case is not ready in this state.
\<close>

definition Watch :: "action \<Rightarrow> watcher \<Rightarrow> watcher option" where
  "Watch a w =
     (case pc w of
        Snapshot i \<Rightarrow>
          (case a of
             Advance \<Rightarrow>
               (if i < length (initialProjects w) then
                  (case cacheError w of
                     Some err \<Rightarrow>
                       Some (w\<lparr>cacheError := None, pc := Emitting (makeErrorEvent err) Returning\<rparr>)
                   | None \<Rightarrow>
                       Some (w\<lparr>pc := Emitting (added_event (initialProjects w ! i))
                                          (Snapshot (i + 1))\<rparr>))
                else Some (w\<lparr>pc := Steady\<rparr>))
           | _ \<Rightarrow> None)
      | Steady \<Rightarrow>
          (case a of
             RecvError \<Rightarrow>
               (case cacheError w of
                  None \<Rightarrow> None
                | Some err \<Rightarrow>
                    Some (w\<lparr>cacheError := None, pc := Emitting (makeErrorEvent err) Returning\<rparr>))
           | RecvStop \<Rightarrow> (if userStop w then Some (w\<lparr>pc := Returning\<rparr>) else None)
           | RecvEvent \<Rightarrow>
               (case cacheIncoming w of
                  [] \<Rightarrow> None
                | ev # rest \<Rightarrow>
                    Some (w\<lparr>cacheIncoming := rest,
                            watchChannelHWM :=
                              snd (hwm_Update (watchChannelHWM w) (int (length rest))),
                            pc := Emitting ev Steady\<rparr>))
           | _ \<Rightarrow> None)
      | Emitting ev k \<Rightarrow> emit a ev k w
      | Returning \<Rightarrow>
          (case a of
             Advance \<Rightarrow> Some ((RemoveWatcher_relay w)\<lparr>pc := Closing\<rparr>)
           | _ \<Rightarrow> None)
      | Closing \<Rightarrow>
          (case a of
             Advance \<Rightarrow>
               (case close_chan (outgoingClosed w) of
                  Inl p \<Rightarrow> Some (w\<lparr>fault := Some p, pc := Exited\<rparr>)
                | Inr closed \<Rightarrow>
                    Some (w\<lparr>outgoingClosed := closed,
                            outgoingCloses := outgoingCloses w + 1, pc := Exited\<rparr>))
           | _ \<Rightarrow> None)
      | Exited \<Rightarrow> None)"

text \<open>
  The dispatcher calls the handler of registered watchers only, and not while an
  earlier call is still parked.
\<close>

definition exec :: "action \<Rightarrow> watcher \<Rightarrow> watcher option" where
  "exec a w =
     (case a of
        Notify c getNamespace \<Rightarrow>
          (if registered w \<and> \<not> intakeBlocked w then
             (case GroupMembershipChanged getNamespace c w of
                Returns w' \<Rightarrow> Some w'
              | Blocks w' \<Rightarrow> Some (w'\<lparr>intakeBlocked := True\<rparr>))
           else None)
      | StopCall \<Rightarrow>
          (case Stop w of
             Inl p \<Rightarrow> Some (w\<lparr>fault := Some p\<rparr>)
           | Inr w' \<Rightarrow> Some w')
      | _ \<Rightarrow> Watch a w)"

fun run :: "action list \<Rightarrow> watcher \<Rightarrow> watcher option" where
  "run [] w = Some w"
| "run (a # as) w = (case exec a w of None \<Rightarrow> None | Some w' \<Rightarrow> run as w')"

text \<open>
  A watcher as the constructor leaves it (registered or not), with a buffer of any
  positive capacity.
\<close>

definition fresh :: "watcher \<Rightarrow> bool" where
  "fresh w =
     (cacheIncoming w = [] \<and> 0 < cacheIncomingCap w \<and> cacheError w = None \<and>
      \<not> outgoingClosed w \<and> \<not> userStop w \<and> pc w = Snapshot 0 \<and>
      delivered w = [] \<and> enqueued w = [] \<and> errorSends w = 0 \<and> intakeRemoves w = 0 \<and>
      relayRemoves w = 0 \<and> outgoingCloses w = 0 \<and> \<not> intakeBlocked w \<and> fault w = None)"

section \<open>Notions the properties are stated with\<close>

text \<open>A change is relevant when the handler gets as far as trying to enqueue an event.\<close>

definition relevant :: "(string \<Rightarrow> string + namespace) \<Rightarrow> change \<Rightarrow> watcher \<Rightarrow> bool" where
  "relevant getNamespace c w =
     (if removed w c then namespaceName c \<in> knownProjects w
      else hasAccess w c \<and> (case getNamespace (namespaceName c) of Inl err \<Rightarrow> False | Inr ns \<Rightarrow> True))"

fun is_notify :: "action \<Rightarrow> bool" where
  "is_notify (Notify c g) = True"
| "is_notify a = False"

text \<open>
  Whether every step of a schedule is a change that is relevant in the state it
  arrives in.
\<close>

fun relevant_changes :: "action list \<Rightarrow> watcher \<Rightarrow> bool" where
  "relevant_changes [] w = True"
| "relevant_changes (Notify c g # as) w =
     (relevant g c w \<and> relevant_changes as (state_of (GroupMembershipChanged g c w)))"
| "relevant_changes (a # as) w = False"

text \<open>The type of the last event about a name in a list of events, oldest first.\<close>

fun last_event_type :: "string \<Rightarrow> event list \<Rightarrow> event_type option" where
  "last_event_type n [] = None"
| "last_event_type n (e # es) =
     (case last_event_type n es of
        Some t \<Rightarrow> Some t
      | None \<Rightarrow> (if event_name e = Some n then Some (Type e) else None))"

text \<open>
  The KnownSet invariant: a name is known iff its last enqueued event is Added or
  Modified, or, with no event about it yet, iff it was known at construction.
\<close>

definition known_inv :: "string set \<Rightarrow> watcher \<Rightarrow> bool" where
  "known_inv known0 w =
     (\<forall>n. n \<in> knownProjects w \<longleftrightarrow>
        (case last_event_type n (enqueued w) of
           None \<Rightarrow> n \<in> known0
         | Some t \<Rightarrow> t = Added \<or> t = Modified))"

text \<open>
  What the relay loop still has to hand over, in order, if nothing else happens: the
  event of a pending \<open>emit\<close>, the rest of the snapshot, the buffer.
\<close>

fun upcoming :: "relay_pc \<Rightarrow> event list \<Rightarrow> event list \<Rightarrow> event list" where
  "upcoming (Snapshot i) snap buf = drop i snap @ buf"
| "upcoming Steady snap buf = buf"
| "upcoming (Emitting ev k) snap buf = ev # upcoming k snap buf"
| "upcoming Returning snap buf = []"
| "upcoming Closing snap buf = []"
| "upcoming Exited snap buf = []"

definition snapshot_events :: "watcher \<Rightarrow> event list" where
  "snapshot_events w = map added_event (initialProjects w)"

definition is_error :: "event \<Rightarrow> bool" where
  "is_error e = (Type e = Error)"

text \<open>The loop has left its body: only the deferred calls remain, or nothing.\<close>

fun finishing :: "relay_pc \<Rightarrow> bool" where
  "finishing Returning = True"
| "finishing Closing = True"
| "finishing Exited = True"
| "finishing p = False"

text \<open>
  A bound on the steps the relay loop can still take once no change arrives any more,
  from its program counter, the length of the snapshot and the length of the buffer.
\<close>

fun rank :: "relay_pc \<Rightarrow> nat \<Rightarrow> nat \<Rightarrow> nat" where
  "rank (Snapshot i) n b = 2 * (n - i) + 2 * b + 5"
| "rank Steady n b = 2 * b + 4"
| "rank (Emitting ev k) n b = 1 + rank k n b"
| "rank Returning n b = 2"
| "rank Closing n b = 1"
| "rank Exited n b = 0"

definition relay_rank :: "watcher \<Rightarrow> nat" where
  "relay_rank w = rank (pc w) (length (initialProjects w)) (length (cacheIncoming w))"

fun is_stop :: "action \<Rightarrow> bool" where
  "is_stop StopCall = True"
| "is_stop a = False"

text \<open>
  The steps of the relay loop itself (with the consumer's receive), and the number of
  them the loop needs to hand over the rest of the snapshot and the buffer when no error
  and no cancellation comes: two for each entry (take it, send it), one to leave the
  snapshot loop.
\<close>

fun pending :: "relay_pc \<Rightarrow> nat \<Rightarrow> nat \<Rightarrow> nat" where
  "pending (Snapshot i) n b = 2 * (n - i) + 1 + 2 * b"
| "pending Steady n b = 2 * b"
| "pending (Emitting ev k) n b = 1 + pending k n b"
| "pending Returning n b = 0"
| "pending Closing n b = 0"
| "pending Exited n b = 0"

definition relay_pending :: "watcher \<Rightarrow> nat" where
  "relay_pending w = pending (pc w) (length (initialProjects w)) (length (cacheIncoming w))"

fun is_relay :: "action \<Rightarrow> bool" where
  "is_relay (Notify c g) = False"
| "is_relay StopCall = False"
| "is_relay a = True"

section \<open>Invariants of the interleaved system\<close>

text \<open>
  The shapes a pending \<open>emit\<close> can have: a snapshot or buffered event (never of type
  Error) after which the loop goes on, or an error event after which it returns.
\<close>

fun pc_ok :: "relay_pc \<Rightarrow> bool" where
  "pc_ok (Emitting ev (Snapshot j)) = (\<not> is_error ev)"
| "pc_ok (Emitting ev Steady) = (\<not> is_error ev)"
| "pc_ok (Emitting ev Returning) = is_error ev"
| "pc_ok (Emitting ev k) = False"
| "pc_ok p = True"

text \<open>The loop is still going to read the buffer.\<close>

fun live :: "relay_pc \<Rightarrow> bool" where
  "live (Snapshot i) = True"
| "live Steady = True"
| "live (Emitting ev k) = live k"
| "live p = False"

text \<open>The deferred calls: none has run before the loop returns, each runs once.\<close>

definition inv_relay :: "watcher \<Rightarrow> bool" where
  "inv_relay w =
     (fault w = None \<and>
      (case pc w of
         Exited \<Rightarrow> outgoingClosed w \<and> outgoingCloses w = 1 \<and> relayRemoves w = 1 \<and> \<not> registered w
       | Closing \<Rightarrow> \<not> outgoingClosed w \<and> outgoingCloses w = 0 \<and> relayRemoves w = 1 \<and> \<not> registered w
       | p \<Rightarrow> \<not> outgoingClosed w \<and> outgoingCloses w = 0 \<and> relayRemoves w = 0))"

text \<open>The error slot: written at most once, and only by the call that deregisters.\<close>

definition inv_slot :: "watcher \<Rightarrow> bool" where
  "inv_slot w =
     (\<not> intakeBlocked w \<and> errorSends w \<le> 1 \<and>
      (registered w \<longrightarrow> errorSends w = 0) \<and>
      (cacheError w \<noteq> None \<longrightarrow> errorSends w = 1) \<and>
      (errorSends w = 0 \<and> \<not> userStop w \<longrightarrow> live (pc w)))"

text \<open>Error events: none in the buffer, and in the output only in the last place.\<close>

definition inv_events :: "watcher \<Rightarrow> bool" where
  "inv_events w =
     ((\<forall>e \<in> set (cacheIncoming w). \<not> is_error e) \<and>
      pc_ok (pc w) \<and>
      (\<forall>e \<in> set (butlast (delivered w)). \<not> is_error e) \<and>
      (\<not> finishing (pc w) \<longrightarrow> (\<forall>e \<in> set (delivered w). \<not> is_error e)))"

text \<open>
  Order: \<open>handover\<close> is what has been delivered followed by what is still to be handed
  over. Without overflow and cancellation it is the snapshot followed by everything
  enqueued; in any case, error events apart, it is a subsequence of that.
\<close>

definition handover :: "watcher \<Rightarrow> event list" where
  "handover w = delivered w @ upcoming (pc w) (snapshot_events w) (cacheIncoming w)"

definition inv_order :: "watcher \<Rightarrow> bool" where
  "inv_order w =
     ((errorSends w = 0 \<and> \<not> userStop w \<longrightarrow> handover w = snapshot_events w @ enqueued w) \<and>
      subseq (filter (\<lambda>e. \<not> is_error e) (handover w)) (snapshot_events w @ enqueued w))"

text \<open>
  After an overflow that recorded \<open>msg\<close>, and as long as nobody cancels: the error is
  in the slot and the loop will come to read it, or the loop holds it in a pending
  \<open>emit\<close>, or it was the last event delivered.
\<close>

definition err_progress :: "string \<Rightarrow> watcher \<Rightarrow> bool" where
  "err_progress msg w =
     (errorSends w = 1 \<and> \<not> registered w \<and>
      (\<not> userStop w \<longrightarrow>
         (cacheError w = Some msg \<and> live (pc w)) \<or>
         (cacheError w = None \<and> pc w = Emitting (makeErrorEvent msg) Returning) \<or>
         (cacheError w = None \<and> finishing (pc w) \<and> delivered w \<noteq> [] \<and>
          last (delivered w) = makeErrorEvent msg)))"

definition inv :: "watcher \<Rightarrow> bool" where
  "inv w = (inv_relay w \<and> inv_slot w \<and> inv_events w \<and> inv_order w)"



section \<open>Example inputs\<close>

text \<open>
  A subscriber \<open>alice\<close> of group \<open>dev\<close>; a change after which she can see the namespace
  named, and one that takes her access away; a project cache that knows every namespace.
\<close>

definition example_watcher :: "namespace list \<Rightarrow> bool \<Rightarrow> watcher" where
  "example_watcher items incl =
     subscribe (projr (NewUserProjectWatcher ''alice'' [''dev''] (\<lambda>u. (Some items, None)) incl))"

definition grant :: "string \<Rightarrow> change" where
  "grant n = \<lparr>namespaceName = n, latestUsers = {''alice''}, latestGroups = {},
              removedUsers = {}, removedGroups = {}, addedUsers = {''alice''}, addedGroups = {}\<rparr>"

definition revoke :: "string \<Rightarrow> change" where
  "revoke n = \<lparr>namespaceName = n, latestUsers = {}, latestGroups = {},
               removedUsers = {''alice''}, removedGroups = {}, addedUsers = {}, addedGroups = {}\<rparr>"

definition unrelated :: "string \<Rightarrow> change" where
  "unrelated n = \<lparr>namespaceName = n, latestUsers = {''bob''}, latestGroups = {},
                  removedUsers = {}, removedGroups = {}, addedUsers = {''bob''}, addedGroups = {}\<rparr>"

definition all_namespaces :: "string \<Rightarrow> string + namespace" where
  "all_namespaces n = Inr \<lparr>Name = n, ResourceVersion = ''1''\<rparr>"

definition no_namespaces :: "string \<Rightarrow> string + namespace" where
  "no_namespaces n = Inl ''not found''"

text \<open>
  Schedules and states of the overflow scenarios: \<open>flood n k\<close> is \<open>k\<close> changes after each
  of which \<open>alice\<close> can see \<open>n\<close>; a watcher with a buffer of two; the watcher that knows
  \<open>a\<close> before and after 1001 changes of \<open>a\<close>; the watcher that knows \<open>a\<close> and \<open>b\<close>, the
  schedule that removes \<open>b\<close>, fills the buffer and grants \<open>b\<close> again, and the state it
  ends in.
\<close>

definition modified_event :: "string \<Rightarrow> event" where
  "modified_event n = \<lparr>Type = Modified, Object = Project \<lparr>Name = n, ResourceVersion = ''1''\<rparr>\<rparr>"

definition flood :: "string \<Rightarrow> nat \<Rightarrow> action list" where
  "flood n k = replicate k (Notify (grant n) all_namespaces)"

definition small_watcher :: watcher where
  "small_watcher = (example_watcher [] False)\<lparr>cacheIncomingCap := 2\<rparr>"

definition late_error_start :: watcher where
  "late_error_start = example_watcher [\<lparr>Name = ''a'', ResourceVersion = ''1''\<rparr>] False"

definition late_error_overflowed :: watcher where
  "late_error_overflowed =
     late_error_start
       \<lparr>cacheIncoming := replicate 1000 (modified_event ''a''),
        cacheError := Some ''add notification timeout'',
        registered := False,
        enqueued := replicate 1000 (modified_event ''a''),
        errorSends := 1, intakeRemoves := 1\<rparr>"

definition known_overflow_start :: watcher where
  "known_overflow_start =
     example_watcher [\<lparr>Name = ''a'', ResourceVersion = ''1''\<rparr>, \<lparr>Name = ''b'', ResourceVersion = ''1''\<rparr>] False"

definition known_overflow_schedule :: "action list" where
  "known_overflow_schedule =
     Notify (revoke ''b'') all_namespaces # flood ''a'' 999 @ [Notify (grant ''b'') all_namespaces]"

definition known_overflow_end :: watcher where
  "known_overflow_end =
     known_overflow_start
       \<lparr>cacheIncoming :=
          \<lparr>Type = Deleted, Object = Project \<lparr>Name = ''b'', ResourceVersion = []\<rparr>\<rparr> #
          replicate 999 (modified_event ''a''),
        cacheError := Some ''add notification timeout'',
        knownProjects := {''a'', ''b''},
        registered := False,
        enqueued :=
          \<lparr>Type = Deleted, Object = Project \<lparr>Name = ''b'', ResourceVersion = []\<rparr>\<rparr> #
          replicate 999 (modified_event ''a''),
        errorSends := 1, intakeRemoves := 1\<rparr>"

section \<open>Basic facts\<close>

lemma HasAny_iff: "HasAny s items \<longleftrightarrow> (\<exists>g \<in> set items. g \<in> s)"
  by (induction items) auto

lemma enqueue_room:
  "length (cacheIncoming w) < cacheIncomingCap w \<Longrightarrow>
   enqueue w ev msg = Returns (w\<lparr>cacheIncoming := cacheIncoming w @ [ev], enqueued := enqueued w @ [ev]\<rparr>)"
  by (simp add: enqueue_def)

lemma enqueue_known: "knownProjects (state_of (enqueue w ev msg)) = knownProjects w"
  by (simp add: enqueue_def RemoveWatcher_intake_def Let_def split: option.splits)

lemma foldl_insert_names:
  "foldl (\<lambda>known ns. insert (Name ns) known) acc items = acc \<union> Name ` set items"
  by (induction items arbitrary: acc) auto

lemma Stop_closes: "Stop w = Inr (w\<lparr>userStop := True\<rparr>)"
  by (simp add: Stop_def close_chan_def)


lemma example_watcher_simps:
  "username (example_watcher items incl) = ''alice''"
  "groups (example_watcher items incl) = [''dev'']"
  "cacheIncoming (example_watcher items incl) = []"
  "cacheIncomingCap (example_watcher items incl) = 1000"
  "cacheError (example_watcher items incl) = None"
  "knownProjects (example_watcher items incl) = Name ` set items"
  "initialProjects (example_watcher items incl) = (if incl then items else [])"
  "registered (example_watcher items incl)"
  "pc (example_watcher items incl) = Snapshot 0"
  by (simp_all add: example_watcher_def NewUserProjectWatcher_def subscribe_def foldl_insert_names)

lemma example_access:
  "hasAccess (example_watcher items incl) (grant n)"
  "\<not> removed (example_watcher items incl) (grant n)"
  "\<not> hasAccess (example_watcher items incl) (revoke n)"
  "removed (example_watcher items incl) (revoke n)"
  "\<not> hasAccess (example_watcher items incl) (unrelated n)"
  "\<not> removed (example_watcher items incl) (unrelated n)"
  by (simp_all add: hasAccess_def removed_def grant_def revoke_def unrelated_def example_watcher_simps)

lemma grant_name: "namespaceName (grant n) = n" "namespaceName (revoke n) = n"
  "namespaceName (unrelated n) = n"
  by (simp_all add: grant_def revoke_def unrelated_def)

section \<open>Steps of the system, case by case\<close>

lemma run_append:
  "run (as @ bs) w = (case run as w of None \<Rightarrow> None | Some w' \<Rightarrow> run bs w')"
  by (induction as arbitrary: w) (auto split: option.splits)

lemma run_snoc:
  "run (as @ [a]) w = Some w' \<longleftrightarrow> (\<exists>v. run as w = Some v \<and> exec a v = Some w')"
  by (auto simp: run_append split: option.splits)

lemma run_invariant:
  assumes step: "\<And>a v v'. P v \<Longrightarrow> exec a v = Some v' \<Longrightarrow> P v'"
    and init: "P w" and run: "run as w = Some w'"
  shows "P w'"
  using init run
proof (induction as arbitrary: w)
  case Nil
  then show ?case by simp
next
  case (Cons a as)
  from Cons.prems(2) obtain v where v: "exec a w = Some v" "run as v = Some w'"
    by (auto split: option.splits)
  from step [OF Cons.prems(1) v(1)] have "P v" .
  from Cons.IH [OF this v(2)] show ?case .
qed

lemma is_error_makeErrorEvent [simp]: "is_error (makeErrorEvent m)"
  by (simp add: is_error_def makeErrorEvent_def)

lemma not_error_added_event [simp]: "\<not> is_error (added_event ns)"
  by (simp add: is_error_def added_event_def)

lemma handler_cases [case_names noop enq overflow block]:
  obtains
    (noop) "GroupMembershipChanged g c w = Returns w" "\<not> relevant g c w"
  | (enq) ev known' where
      "GroupMembershipChanged g c w =
         Returns (w\<lparr>cacheIncoming := cacheIncoming w @ [ev], knownProjects := known',
                    enqueued := enqueued w @ [ev]\<rparr>)"
      "length (cacheIncoming w) < cacheIncomingCap w"
      "relevant g c w"
      "(Type ev = Deleted \<and> event_name ev = Some (namespaceName c) \<and>
        known' = knownProjects w - {namespaceName c}) \<or>
       (\<exists>m. (Type ev = Added \<or> Type ev = Modified) \<and> event_name ev = Some m \<and>
            known' = insert m (knownProjects w))"
  | (overflow) msg known' where
      "GroupMembershipChanged g c w =
         Returns (w\<lparr>cacheError := Some msg, knownProjects := known', registered := False,
                    errorSends := errorSends w + 1, intakeRemoves := intakeRemoves w + 1\<rparr>)"
      "cacheIncomingCap w \<le> length (cacheIncoming w)"
      "cacheError w = None"
      "relevant g c w"
      "msg = ''delete notification timeout'' \<or> msg = ''add notification timeout''"
  | (block) known' where
      "GroupMembershipChanged g c w =
         Blocks (w\<lparr>knownProjects := known', registered := False,
                   intakeRemoves := intakeRemoves w + 1\<rparr>)"
      "cacheIncomingCap w \<le> length (cacheIncoming w)"
      "cacheError w \<noteq> None"
proof -
  let ?n = "namespaceName c"
  consider (A) "removed w c" "?n \<notin> knownProjects w"
    | (B) "removed w c" "?n \<in> knownProjects w"
    | (C) err where "\<not> removed w c" "hasAccess w c" "g ?n = Inl err"
    | (D) ns where "\<not> removed w c" "hasAccess w c" "g ?n = Inr ns"
    | (E) "\<not> removed w c" "\<not> hasAccess w c"
    by (cases "g ?n") blast+
  then show ?thesis
  proof cases
    case A
    then show ?thesis by (intro noop) (simp_all add: GroupMembershipChanged_def relevant_def)
  next
    case C
    then show ?thesis by (intro noop) (simp_all add: GroupMembershipChanged_def relevant_def)
  next
    case E
    then show ?thesis by (intro noop) (simp_all add: GroupMembershipChanged_def relevant_def)
  next
    case B
    let ?ev = "\<lparr>Type = Deleted, Object = ConvertNamespace \<lparr>Name = ?n, ResourceVersion = []\<rparr>\<rparr>"
    have rel: "relevant g c w" using B by (simp add: relevant_def)
    consider (room) "length (cacheIncoming w) < cacheIncomingCap w"
      | (full) "cacheIncomingCap w \<le> length (cacheIncoming w)" "cacheError w = None"
      | (stuck) "cacheIncomingCap w \<le> length (cacheIncoming w)" "cacheError w \<noteq> None"
      by fastforce
    then show ?thesis
    proof cases
      case room
      show ?thesis
      proof (rule enq)
        show "GroupMembershipChanged g c w =
          Returns (w\<lparr>cacheIncoming := cacheIncoming w @ [?ev], knownProjects := knownProjects w - {?n},
                     enqueued := enqueued w @ [?ev]\<rparr>)"
          using B room by (simp add: GroupMembershipChanged_def enqueue_def)
      qed (use room rel in \<open>simp_all add: ConvertNamespace_def\<close>)
    next
      case full
      show ?thesis
      proof (rule overflow)
        show "GroupMembershipChanged g c w =
          Returns (w\<lparr>cacheError := Some ''delete notification timeout'',
                     knownProjects := knownProjects w - {?n}, registered := False,
                     errorSends := errorSends w + 1, intakeRemoves := intakeRemoves w + 1\<rparr>)"
          using B full by (simp add: GroupMembershipChanged_def enqueue_def RemoveWatcher_intake_def)
      qed (use full rel in simp_all)
    next
      case stuck
      show ?thesis
      proof (rule block)
        show "GroupMembershipChanged g c w =
          Blocks (w\<lparr>knownProjects := knownProjects w - {?n}, registered := False,
                    intakeRemoves := intakeRemoves w + 1\<rparr>)"
          using B stuck by (auto simp add: GroupMembershipChanged_def enqueue_def RemoveWatcher_intake_def)
      qed (use stuck in simp_all)
    qed
  next
    case D
    let ?ev = "\<lparr>Type = (if ?n \<in> knownProjects w then Modified else Added), Object = ConvertNamespace ns\<rparr>"
    have rel: "relevant g c w" using D by (simp add: relevant_def)
    consider (room) "length (cacheIncoming w) < cacheIncomingCap w"
      | (full) "cacheIncomingCap w \<le> length (cacheIncoming w)" "cacheError w = None"
      | (stuck) "cacheIncomingCap w \<le> length (cacheIncoming w)" "cacheError w \<noteq> None"
      by fastforce
    then show ?thesis
    proof cases
      case room
      show ?thesis
      proof (rule enq)
        show "GroupMembershipChanged g c w =
          Returns (w\<lparr>cacheIncoming := cacheIncoming w @ [?ev],
                     knownProjects := insert (Name ns) (knownProjects w),
                     enqueued := enqueued w @ [?ev]\<rparr>)"
          using D room by (simp add: GroupMembershipChanged_def enqueue_def)
        show "(Type ?ev = Deleted \<and> event_name ?ev = Some ?n \<and>
                insert (Name ns) (knownProjects w) = knownProjects w - {?n}) \<or>
              (\<exists>m. (Type ?ev = Added \<or> Type ?ev = Modified) \<and> event_name ?ev = Some m \<and>
                insert (Name ns) (knownProjects w) = insert m (knownProjects w))"
          by (rule disjI2, rule exI [of _ "Name ns"]) (simp add: ConvertNamespace_def)
      qed (use room rel in simp_all)
    next
      case full
      show ?thesis
      proof (rule overflow)
        show "GroupMembershipChanged g c w =
          Returns (w\<lparr>cacheError := Some ''add notification timeout'',
                     knownProjects := insert (Name ns) (knownProjects w), registered := False,
                     errorSends := errorSends w + 1, intakeRemoves := intakeRemoves w + 1\<rparr>)"
          using D full by (simp add: GroupMembershipChanged_def enqueue_def RemoveWatcher_intake_def)
      qed (use full rel in simp_all)
    next
      case stuck
      show ?thesis
      proof (rule block)
        show "GroupMembershipChanged g c w =
          Blocks (w\<lparr>knownProjects := insert (Name ns) (knownProjects w), registered := False,
                    intakeRemoves := intakeRemoves w + 1\<rparr>)"
          using D stuck by (auto simp add: GroupMembershipChanged_def enqueue_def RemoveWatcher_intake_def)
      qed (use stuck in simp_all)
    qed
  qed
qed

lemma exec_cases [consumes 1, case_names notify notify_block stop snap_next snap_err snap_done
    recv_error recv_stop recv_event send send_fault emit_stop defer_remove defer_close close_fault]:
  assumes "exec a w = Some w'"
  obtains
    (notify) c g where "a = Notify c g" "registered w" "\<not> intakeBlocked w"
      "GroupMembershipChanged g c w = Returns w'"
  | (notify_block) c g v where "a = Notify c g" "registered w" "\<not> intakeBlocked w"
      "GroupMembershipChanged g c w = Blocks v" "w' = v\<lparr>intakeBlocked := True\<rparr>"
  | (stop) "a = StopCall" "w' = w\<lparr>userStop := True\<rparr>"
  | (snap_next) i where "a = Advance" "pc w = Snapshot i" "i < length (initialProjects w)"
      "cacheError w = None"
      "w' = w\<lparr>pc := Emitting (added_event (initialProjects w ! i)) (Snapshot (i + 1))\<rparr>"
  | (snap_err) i err where "a = Advance" "pc w = Snapshot i" "i < length (initialProjects w)"
      "cacheError w = Some err"
      "w' = w\<lparr>cacheError := None, pc := Emitting (makeErrorEvent err) Returning\<rparr>"
  | (snap_done) i where "a = Advance" "pc w = Snapshot i" "length (initialProjects w) \<le> i"
      "w' = w\<lparr>pc := Steady\<rparr>"
  | (recv_error) err where "a = RecvError" "pc w = Steady" "cacheError w = Some err"
      "w' = w\<lparr>cacheError := None, pc := Emitting (makeErrorEvent err) Returning\<rparr>"
  | (recv_stop) "a = RecvStop" "pc w = Steady" "userStop w" "w' = w\<lparr>pc := Returning\<rparr>"
  | (recv_event) ev rest where "a = RecvEvent" "pc w = Steady" "cacheIncoming w = ev # rest"
      "w' = w\<lparr>cacheIncoming := rest,
              watchChannelHWM := snd (hwm_Update (watchChannelHWM w) (int (length rest))),
              pc := Emitting ev Steady\<rparr>"
  | (send) ev k where "a = SendOutgoing" "pc w = Emitting ev k" "\<not> outgoingClosed w"
      "w' = w\<lparr>delivered := delivered w @ [ev], pc := k\<rparr>"
  | (send_fault) ev k where "a = SendOutgoing" "pc w = Emitting ev k" "outgoingClosed w"
      "w' = w\<lparr>fault := Some ''send on closed channel'', pc := Returning\<rparr>"
  | (emit_stop) ev k where "a = RecvStop" "pc w = Emitting ev k" "userStop w" "w' = w\<lparr>pc := k\<rparr>"
  | (defer_remove) "a = Advance" "pc w = Returning"
      "w' = w\<lparr>registered := False, pc := Closing, relayRemoves := relayRemoves w + 1\<rparr>"
  | (defer_close) "a = Advance" "pc w = Closing" "\<not> outgoingClosed w"
      "w' = w\<lparr>outgoingClosed := True, outgoingCloses := outgoingCloses w + 1, pc := Exited\<rparr>"
  | (close_fault) "a = Advance" "pc w = Closing" "outgoingClosed w"
      "w' = w\<lparr>fault := Some ''close of closed channel'', pc := Exited\<rparr>"
proof (cases a)
  case (Notify c g)
  from assms Notify have r: "registered w" "\<not> intakeBlocked w"
    by (simp_all add: exec_def split: if_splits)
  show ?thesis
  proof (cases "GroupMembershipChanged g c w")
    case (Returns v)
    with assms Notify r have "GroupMembershipChanged g c w = Returns w'"
      by (simp add: exec_def)
    from that(1) [OF Notify r this] show ?thesis .
  next
    case (Blocks v)
    with assms Notify r have "w' = v\<lparr>intakeBlocked := True\<rparr>"
      by (simp add: exec_def)
    from that(2) [OF Notify r Blocks this] show ?thesis .
  qed
next
  case StopCall
  with assms have "w' = w\<lparr>userStop := True\<rparr>"
    by (simp add: exec_def Stop_closes)
  from that(3) [OF StopCall this] show ?thesis .
next
  case Advance
  show ?thesis
  proof (cases "pc w")
    case (Snapshot i)
    show ?thesis
    proof (cases "i < length (initialProjects w)")
      case True
      show ?thesis
      proof (cases "cacheError w")
        case None
        with assms Advance Snapshot True
        have "w' = w\<lparr>pc := Emitting (added_event (initialProjects w ! i)) (Snapshot (i + 1))\<rparr>"
          by (simp add: exec_def Watch_def emit_def)
        from that(4) [OF Advance Snapshot True None this] show ?thesis .
      next
        case (Some err)
        with assms Advance Snapshot True
        have "w' = w\<lparr>cacheError := None, pc := Emitting (makeErrorEvent err) Returning\<rparr>"
          by (simp add: exec_def Watch_def emit_def)
        from that(5) [OF Advance Snapshot True Some this] show ?thesis .
      qed
    next
      case False
      with assms Advance Snapshot have "w' = w\<lparr>pc := Steady\<rparr>"
        by (simp add: exec_def Watch_def emit_def)
      moreover from False have "length (initialProjects w) \<le> i" by simp
      ultimately show ?thesis using that(6) [OF Advance Snapshot] by blast
    qed
  next
    case Returning
    with assms Advance
    have "w' = w\<lparr>registered := False, pc := Closing, relayRemoves := relayRemoves w + 1\<rparr>"
      by (auto simp add: exec_def Watch_def emit_def RemoveWatcher_relay_def)
    from that(13) [OF Advance Returning this] show ?thesis .
  next
    case Closing
    show ?thesis
    proof (cases "outgoingClosed w")
      case False
      with assms Advance Closing
      have "w' = w\<lparr>outgoingClosed := True, outgoingCloses := outgoingCloses w + 1, pc := Exited\<rparr>"
        by (simp add: exec_def Watch_def emit_def close_chan_def)
      from that(14) [OF Advance Closing False this] show ?thesis .
    next
      case True
      with assms Advance Closing
      have "w' = w\<lparr>fault := Some ''close of closed channel'', pc := Exited\<rparr>"
        by (simp add: exec_def Watch_def emit_def close_chan_def)
      from that(15) [OF Advance Closing True this] show ?thesis .
    qed
  qed (use assms Advance in \<open>simp_all add: exec_def Watch_def emit_def\<close>)
next
  case RecvError
  show ?thesis
  proof (cases "pc w")
    case Steady
    with assms RecvError obtain err where e: "cacheError w = Some err"
      by (cases "cacheError w") (simp_all add: exec_def Watch_def emit_def)
    with assms RecvError Steady
    have "w' = w\<lparr>cacheError := None, pc := Emitting (makeErrorEvent err) Returning\<rparr>"
      by (simp add: exec_def Watch_def emit_def)
    from that(7) [OF RecvError Steady e this] show ?thesis .
  qed (use assms RecvError in \<open>simp_all add: exec_def Watch_def emit_def\<close>)
next
  case RecvStop
  show ?thesis
  proof (cases "pc w")
    case Steady
    with assms RecvStop have u: "userStop w" and "w' = w\<lparr>pc := Returning\<rparr>"
      by (simp_all add: exec_def Watch_def emit_def split: if_splits)
    from that(8) [OF RecvStop Steady this] show ?thesis .
  next
    case (Emitting ev k)
    with assms RecvStop have u: "userStop w" and "w' = w\<lparr>pc := k\<rparr>"
      by (simp_all add: exec_def Watch_def emit_def split: if_splits)
    from that(12) [OF RecvStop Emitting this] show ?thesis .
  qed (use assms RecvStop in \<open>simp_all add: exec_def Watch_def emit_def\<close>)
next
  case RecvEvent
  show ?thesis
  proof (cases "pc w")
    case Steady
    with assms RecvEvent obtain ev rest where e: "cacheIncoming w = ev # rest"
      by (cases "cacheIncoming w") (simp_all add: exec_def Watch_def emit_def)
    with assms RecvEvent Steady
    have "w' = w\<lparr>cacheIncoming := rest,
              watchChannelHWM := snd (hwm_Update (watchChannelHWM w) (int (length rest))),
              pc := Emitting ev Steady\<rparr>"
      by (simp add: exec_def Watch_def emit_def)
    from that(9) [OF RecvEvent Steady e this] show ?thesis .
  qed (use assms RecvEvent in \<open>simp_all add: exec_def Watch_def emit_def\<close>)
next
  case SendOutgoing
  show ?thesis
  proof (cases "pc w")
    case (Emitting ev k)
    show ?thesis
    proof (cases "outgoingClosed w")
      case False
      with assms SendOutgoing Emitting have "w' = w\<lparr>delivered := delivered w @ [ev], pc := k\<rparr>"
        by (simp add: exec_def Watch_def emit_def)
      from that(10) [OF SendOutgoing Emitting False this] show ?thesis .
    next
      case True
      with assms SendOutgoing Emitting
      have "w' = w\<lparr>fault := Some ''send on closed channel'', pc := Returning\<rparr>"
        by (simp add: exec_def Watch_def emit_def)
      from that(11) [OF SendOutgoing Emitting True this] show ?thesis .
    qed
  qed (use assms SendOutgoing in \<open>simp_all add: exec_def Watch_def emit_def\<close>)
qed

section \<open>Preservation of the invariants\<close>

lemma handler_frame:
  assumes "state_of (GroupMembershipChanged g c w) = w'"
  shows "pc w' = pc w \<and> fault w' = fault w \<and> outgoingClosed w' = outgoingClosed w \<and>
         outgoingCloses w' = outgoingCloses w \<and> relayRemoves w' = relayRemoves w \<and>
         delivered w' = delivered w \<and> userStop w' = userStop w \<and>
         initialProjects w' = initialProjects w \<and> intakeBlocked w' = intakeBlocked w \<and>
         cacheIncomingCap w' = cacheIncomingCap w \<and> (registered w' \<longrightarrow> registered w)"
  using assms by (cases rule: handler_cases [of g c w]) auto

lemma pc_ok_emitting:
  "pc_ok (Emitting ev k) \<Longrightarrow>
     pc_ok k \<and> \<not> finishing (Emitting ev k) \<and> k \<noteq> Closing \<and> k \<noteq> Exited \<and>
     (finishing k \<longleftrightarrow> is_error ev) \<and> (finishing k \<longleftrightarrow> k = Returning)"
  by (cases k) simp_all

lemma inv_events_step:
  assumes "exec a w = Some w'" "inv_events w"
  shows "inv_events w'"
  using assms
proof (cases rule: exec_cases)
  case (notify c g)
  from assms(2) notify(4) show ?thesis
    by (cases rule: handler_cases [of g c w]) (auto simp: inv_events_def is_error_def)
next
  case (notify_block c g v)
  from assms(2) notify_block(4,5) show ?thesis
    by (cases rule: handler_cases [of g c w]) (auto simp: inv_events_def)
next
  case (send ev k)
  with assms(2) pc_ok_emitting [of ev k] show ?thesis
    by (auto simp: inv_events_def butlast_append)
next
  case (emit_stop ev k)
  with assms(2) pc_ok_emitting [of ev k] show ?thesis
    by (auto simp: inv_events_def)
qed (auto simp: inv_events_def)

lemma inv_relay_step:
  assumes "exec a w = Some w'" "inv_relay w" "inv_events w"
  shows "inv_relay w'"
  using assms
proof (cases rule: exec_cases)
  case (notify c g)
  with handler_frame [of g c w w'] assms(2) show ?thesis
    by (auto simp: inv_relay_def split: relay_pc.splits)
next
  case (notify_block c g v)
  with handler_frame [of g c w v] assms(2) show ?thesis
    by (auto simp: inv_relay_def split: relay_pc.splits)
next
  case (send ev k)
  with assms(2,3) pc_ok_emitting [of ev k] show ?thesis
    by (auto simp: inv_relay_def inv_events_def split: relay_pc.splits)
next
  case (emit_stop ev k)
  with assms(2,3) pc_ok_emitting [of ev k] show ?thesis
    by (auto simp: inv_relay_def inv_events_def split: relay_pc.splits)
qed (auto simp: inv_relay_def split: relay_pc.splits)

lemma inv_slot_step:
  assumes "exec a w = Some w'" "inv_slot w" "inv_relay w"
  shows "inv_slot w'"
  using assms
proof (cases rule: exec_cases)
  case (notify c g)
  from assms(2) notify(2,4) show ?thesis
    by (cases rule: handler_cases [of g c w]) (auto simp: inv_slot_def)
next
  case (notify_block c g v)
  from assms(2) notify_block(2,4,5) show ?thesis
    by (cases rule: handler_cases [of g c w]) (auto simp: inv_slot_def)
qed (auto simp: inv_slot_def inv_relay_def)

lemma upcoming_snoc:
  "upcoming p snap (buf @ [ev]) = upcoming p snap buf @ (if live p then [ev] else [])"
  by (induction p) simp_all

lemma snapshot_drop:
  "i < length (initialProjects w) \<Longrightarrow>
   drop i (snapshot_events w) =
     added_event (initialProjects w ! i) # drop (Suc i) (snapshot_events w)"
  by (simp add: snapshot_events_def Cons_nth_drop_Suc [symmetric] del: drop_Suc_Cons)

lemma snapshot_events_cong:
  "initialProjects w' = initialProjects w \<Longrightarrow> snapshot_events w' = snapshot_events w"
  by (simp add: snapshot_events_def)

lemma subseq_filter_snoc:
  "subseq (filter P xs) ys \<Longrightarrow> subseq (filter P (xs @ [e])) (ys @ [e])"
  by (cases "P e") (simp_all add: subseq_rev_drop_many)

lemma subseq_filter_shrink:
  "subseq xs' xs \<Longrightarrow> subseq (filter P xs) ys \<Longrightarrow> subseq (filter P xs') ys"
  using subseq_filter subseq_order.trans by blast

lemma subseq_self_append [simp]: "subseq xs (xs @ ys)"
  by (simp add: subseq_rev_drop_many)

lemma subseq_skip_middle [simp]: "subseq (xs @ ys) (xs @ e # ys)"
  by (simp add: subseq_append' list_emb_Cons)

lemma relay_step_handover:
  assumes "exec a w = Some w'" "\<not> is_notify a"
  shows "enqueued w' = enqueued w \<and> initialProjects w' = initialProjects w \<and>
         subseq (filter (\<lambda>e. \<not> is_error e) (handover w'))
                (filter (\<lambda>e. \<not> is_error e) (handover w))"
  using assms(1)
proof (cases rule: exec_cases)
  case (notify c g)
  with assms(2) show ?thesis by simp
next
  case (notify_block c g v)
  with assms(2) show ?thesis by simp
next
  case stop
  then show ?thesis by (simp add: handover_def snapshot_events_def)
next
  case (snap_next i)
  then show ?thesis
    using snapshot_drop [of i w] by (simp add: handover_def snapshot_events_def)
next
  case (snap_err i err)
  then show ?thesis by (simp add: handover_def snapshot_events_def)
next
  case (snap_done i)
  then show ?thesis by (simp add: handover_def snapshot_events_def)
next
  case (recv_error err)
  then show ?thesis by (simp add: handover_def snapshot_events_def)
next
  case recv_stop
  then show ?thesis by (simp add: handover_def snapshot_events_def)
next
  case (recv_event ev rest)
  then show ?thesis by (simp add: handover_def snapshot_events_def)
next
  case (send ev k)
  then show ?thesis by (simp add: handover_def snapshot_events_def)
next
  case (send_fault ev k)
  then show ?thesis by (simp add: handover_def snapshot_events_def)
next
  case (emit_stop ev k)
  then show ?thesis by (simp add: handover_def snapshot_events_def)
next
  case defer_remove
  then show ?thesis by (simp add: handover_def snapshot_events_def)
next
  case defer_close
  then show ?thesis by (simp add: handover_def snapshot_events_def)
next
  case close_fault
  then show ?thesis by (simp add: handover_def snapshot_events_def)
qed

lemma relay_step_handover_exact:
  assumes "exec a w = Some w'" "\<not> is_notify a" "errorSends w' = 0" "\<not> userStop w'"
    "inv_slot w" "inv_relay w"
  shows "handover w' = handover w \<and> errorSends w = 0 \<and> \<not> userStop w"
  using assms(1)
proof (cases rule: exec_cases)
  case (notify c g)
  with assms(2) show ?thesis by simp
next
  case (notify_block c g v)
  with assms(2) show ?thesis by simp
next
  case (snap_next i)
  with assms(3,4) show ?thesis
    using snapshot_drop [of i w] by (simp add: handover_def snapshot_events_def)
qed (use assms(3-6) in \<open>auto simp: handover_def snapshot_events_def inv_slot_def inv_relay_def\<close>)

lemma handler_handover:
  assumes "state_of (GroupMembershipChanged g c w) = w'"
  shows "snapshot_events w' = snapshot_events w \<and> userStop w' = userStop w \<and>
         errorSends w \<le> errorSends w' \<and>
         ((handover w' = handover w \<and> enqueued w' = enqueued w) \<or>
          (\<exists>ev. handover w' = handover w @ (if live (pc w) then [ev] else []) \<and>
                enqueued w' = enqueued w @ [ev] \<and> errorSends w' = errorSends w))"
  using assms
  by (cases rule: handler_cases [of g c w])
     (auto simp: handover_def snapshot_events_def upcoming_snoc)

lemma inv_order_step:
  assumes "exec a w = Some w'" "inv_order w" "inv_slot w" "inv_relay w"
  shows "inv_order w'"
proof (cases "is_notify a")
  case False
  from relay_step_handover [OF assms(1) False]
  have e: "enqueued w' = enqueued w" "snapshot_events w' = snapshot_events w"
    and s: "subseq (filter (\<lambda>e. \<not> is_error e) (handover w'))
                (filter (\<lambda>e. \<not> is_error e) (handover w))"
    by (simp_all add: snapshot_events_def)
  from assms(2) have "subseq (filter (\<lambda>e. \<not> is_error e) (handover w)) (snapshot_events w @ enqueued w)"
    by (simp add: inv_order_def)
  with s have 2: "subseq (filter (\<lambda>e. \<not> is_error e) (handover w')) (snapshot_events w' @ enqueued w')"
    unfolding e using subseq_order.trans by blast
  have 1: "handover w' = snapshot_events w' @ enqueued w'" if "errorSends w' = 0" "\<not> userStop w'"
    using relay_step_handover_exact [OF assms(1) False that assms(3,4)] assms(2) e
    by (simp add: inv_order_def)
  from 1 2 show ?thesis by (simp add: inv_order_def)
next
  case True
  then obtain c g where a: "a = Notify c g" by (cases a) simp_all
  with assms(1) have st: "state_of (GroupMembershipChanged g c w) = w' \<or>
      (\<exists>v. state_of (GroupMembershipChanged g c w) = v \<and> w' = v\<lparr>intakeBlocked := True\<rparr>)"
    by (cases rule: exec_cases) auto
  define v where "v = state_of (GroupMembershipChanged g c w)"
  from st have w': "handover w' = handover v" "enqueued w' = enqueued v"
    "snapshot_events w' = snapshot_events v" "errorSends w' = errorSends v" "userStop w' = userStop v"
    by (auto simp: v_def handover_def snapshot_events_def)
  from handler_handover [of g c w v] have h: "snapshot_events v = snapshot_events w"
    "userStop v = userStop w" "errorSends w \<le> errorSends v"
    "(handover v = handover w \<and> enqueued v = enqueued w) \<or>
          (\<exists>ev. handover v = handover w @ (if live (pc w) then [ev] else []) \<and>
                enqueued v = enqueued w @ [ev] \<and> errorSends v = errorSends w)"
    by (simp_all add: v_def)
  from assms(2) have o: "errorSends w = 0 \<and> \<not> userStop w \<longrightarrow> handover w = snapshot_events w @ enqueued w"
    "subseq (filter (\<lambda>e. \<not> is_error e) (handover w)) (snapshot_events w @ enqueued w)"
    by (simp_all add: inv_order_def)
  from assms(3) have l: "errorSends w = 0 \<and> \<not> userStop w \<longrightarrow> live (pc w)"
    by (simp add: inv_slot_def)
  from h(4) show ?thesis
  proof
    assume "handover v = handover w \<and> enqueued v = enqueued w"
    with o h(1-3) show ?thesis
      unfolding inv_order_def w' by auto
  next
    assume "\<exists>ev. handover v = handover w @ (if live (pc w) then [ev] else []) \<and>
                enqueued v = enqueued w @ [ev] \<and> errorSends v = errorSends w"
    then obtain ev where ev: "handover v = handover w @ (if live (pc w) then [ev] else [])"
      "enqueued v = enqueued w @ [ev]" "errorSends v = errorSends w" by blast
    have 1: "handover v = snapshot_events v @ enqueued v" if "errorSends v = 0" "\<not> userStop v"
      using that o(1) l ev h(1,2) by simp
    have 2: "subseq (filter (\<lambda>e. \<not> is_error e) (handover v)) (snapshot_events v @ enqueued v)"
    proof (cases "live (pc w)")
      case True
      with ev h(1) subseq_filter_snoc [OF o(2), of ev] show ?thesis by simp
    next
      case False
      with ev h(1) subseq_rev_drop_many [OF o(2), of "[ev]"] show ?thesis by simp
    qed
    from 1 2 show ?thesis unfolding inv_order_def w' by simp
  qed
qed

lemma inv_step: "inv w \<Longrightarrow> exec a w = Some w' \<Longrightarrow> inv w'"
  unfolding inv_def
  using inv_relay_step inv_slot_step inv_events_step inv_order_step by blast

lemma fresh_inv: "fresh w \<Longrightarrow> inv w"
  by (simp add: fresh_def inv_def inv_relay_def inv_slot_def inv_events_def inv_order_def handover_def)

lemma inv_run: "fresh w0 \<Longrightarrow> run as w0 = Some w \<Longrightarrow> inv w"
  using run_invariant [of inv w0 as w] inv_step fresh_inv by blast

lemma last_event_type_snoc:
  "last_event_type n (es @ [e]) =
     (if event_name e = Some n then Some (Type e) else last_event_type n es)"
  by (induction es) (auto split: option.splits)

lemma known_inv_snoc:
  assumes "known_inv k0 w" "event_name ev = Some m"
    "enqueued w' = enqueued w @ [ev]"
    "knownProjects w' =
       (if Type ev = Added \<or> Type ev = Modified then insert m (knownProjects w)
        else knownProjects w - {m})"
  shows "known_inv k0 w'"
  unfolding known_inv_def
proof
  fix n
  from assms(1) have n: "n \<in> knownProjects w \<longleftrightarrow>
        (case last_event_type n (enqueued w) of
           None \<Rightarrow> n \<in> k0
         | Some t \<Rightarrow> t = Added \<or> t = Modified)"
    by (simp add: known_inv_def)
  show "n \<in> knownProjects w' \<longleftrightarrow>
        (case last_event_type n (enqueued w') of
           None \<Rightarrow> n \<in> k0
         | Some t \<Rightarrow> t = Added \<or> t = Modified)"
  proof (cases "m = n")
    case True
    with assms(2-4) show ?thesis by (simp add: last_event_type_snoc)
  next
    case False
    with assms(2-4) n show ?thesis by (simp add: last_event_type_snoc)
  qed
qed

lemma known_inv_cong:
  "known_inv k0 w \<Longrightarrow> enqueued w' = enqueued w \<Longrightarrow> knownProjects w' = knownProjects w \<Longrightarrow>
   known_inv k0 w'"
  by (simp add: known_inv_def)

lemma known_inv_step:
  assumes "exec a w = Some w'" "errorSends w = 0 \<longrightarrow> known_inv k0 w" "errorSends w' = 0"
    "inv_slot w"
  shows "known_inv k0 w' \<and> errorSends w = 0"
  using assms(1)
proof (cases rule: exec_cases)
  case (notify c g)
  show ?thesis
  proof (cases rule: handler_cases [of g c w])
    case noop
    with notify(4) assms(2,3) show ?thesis by simp
  next
    case (enq ev known')
    with notify(4) have w': "w' = w\<lparr>cacheIncoming := cacheIncoming w @ [ev], knownProjects := known',
                    enqueued := enqueued w @ [ev]\<rparr>" by simp
    with assms(2,3) have k: "known_inv k0 w" and e: "errorSends w = 0" by simp_all
    from enq(4) obtain m where "event_name ev = Some m"
      "known' = (if Type ev = Added \<or> Type ev = Modified then insert m (knownProjects w)
        else knownProjects w - {m})"
      by auto
    from known_inv_snoc [OF k this(1), of w'] this(2) w' e show ?thesis by simp
  next
    case (overflow msg known')
    with notify(4) assms(3) show ?thesis by auto
  next
    case (block known')
    with notify(4) show ?thesis by auto
  qed
next
  case (notify_block c g v)
  from notify_block(4,5) assms(2-4) show ?thesis
    by (cases rule: handler_cases [of g c w]) (auto simp: inv_slot_def)
qed (use assms(2,3) in \<open>auto intro: known_inv_cong\<close>)

lemma known_inv_run:
  "run as w0 = Some w \<Longrightarrow> errorSends w = 0 \<Longrightarrow> fresh w0 \<Longrightarrow>
   known_inv (knownProjects w0) w"
proof (induction as arbitrary: w rule: rev_induct)
  case Nil
  then show ?case by (simp add: known_inv_def fresh_def)
next
  case (snoc a as)
  from snoc.prems(1) obtain v where v: "run as w0 = Some v" "exec a v = Some w"
    by (auto simp: run_snoc)
  from snoc.IH [OF v(1) _ snoc.prems(3)]
  have "errorSends v = 0 \<longrightarrow> known_inv (knownProjects w0) v" by blast
  moreover from inv_run [OF snoc.prems(3) v(1)] have "inv_slot v" by (simp add: inv_def)
  ultimately show ?case using known_inv_step [OF v(2) _ snoc.prems(2)] by simp
qed

section \<open>Overflow, progress and termination of the relay loop\<close>

lemma relevant_enqueues:
  assumes "relevant g c w" "length (cacheIncoming w) < cacheIncomingCap w"
  shows "\<exists>ev known'. GroupMembershipChanged g c w =
           Returns (w\<lparr>cacheIncoming := cacheIncoming w @ [ev], knownProjects := known',
                      enqueued := enqueued w @ [ev]\<rparr>)"
proof (cases rule: handler_cases [of g c w])
  case noop
  with assms show ?thesis by simp
next
  case (enq ev known')
  then show ?thesis by blast
qed (use assms in simp_all)

lemma relevant_overflows:
  assumes "relevant g c w" "cacheIncomingCap w \<le> length (cacheIncoming w)" "cacheError w = None"
  shows "\<exists>msg known'.
           GroupMembershipChanged g c w =
             Returns (w\<lparr>cacheError := Some msg, knownProjects := known', registered := False,
                        errorSends := errorSends w + 1, intakeRemoves := intakeRemoves w + 1\<rparr>) \<and>
           (msg = ''delete notification timeout'' \<or> msg = ''add notification timeout'')"
proof (cases rule: handler_cases [of g c w])
  case noop
  with assms show ?thesis by simp
next
  case (overflow msg known')
  then show ?thesis by blast
qed (use assms in simp_all)

lemma fill_buffer:
  assumes "relevant_changes as w" "registered w" "\<not> intakeBlocked w"
    "length (cacheIncoming w) + length as \<le> cacheIncomingCap w"
  shows "\<exists>w'. run as w = Some w' \<and> registered w' \<and> \<not> intakeBlocked w' \<and>
              length (cacheIncoming w') = length (cacheIncoming w) + length as \<and>
              cacheIncomingCap w' = cacheIncomingCap w \<and> cacheError w' = cacheError w \<and>
              errorSends w' = errorSends w \<and> pc w' = pc w \<and> delivered w' = delivered w \<and>
              userStop w' = userStop w \<and> initialProjects w' = initialProjects w"
  using assms
proof (induction as arbitrary: w)
  case Nil
  then show ?case by simp
next
  case (Cons a as)
  from Cons.prems(1) obtain c g where a: "a = Notify c g"
    by (cases a) simp_all
  with Cons.prems(1) have rel: "relevant g c w"
    and rest: "relevant_changes as (state_of (GroupMembershipChanged g c w))"
    by simp_all
  from Cons.prems(4) have room: "length (cacheIncoming w) < cacheIncomingCap w" by simp
  from relevant_enqueues [OF rel room] obtain ev known' where
    h: "GroupMembershipChanged g c w =
           Returns (w\<lparr>cacheIncoming := cacheIncoming w @ [ev], knownProjects := known',
                      enqueued := enqueued w @ [ev]\<rparr>)"
    by blast
  define v where "v = w\<lparr>cacheIncoming := cacheIncoming w @ [ev], knownProjects := known',
                      enqueued := enqueued w @ [ev]\<rparr>"
  from h Cons.prems(2,3) a have e: "exec a w = Some v"
    by (simp add: exec_def v_def)
  from rest h have 1: "relevant_changes as v" by (simp add: v_def)
  have 2: "registered v" "\<not> intakeBlocked v"
    "length (cacheIncoming v) + length as \<le> cacheIncomingCap v"
    using Cons.prems(2-4) by (simp_all add: v_def)
  from Cons.IH [OF 1 2] obtain w' where
    "run as v = Some w'" "registered w'" "\<not> intakeBlocked w'"
    "length (cacheIncoming w') = length (cacheIncoming v) + length as"
    "cacheIncomingCap w' = cacheIncomingCap v" "cacheError w' = cacheError v"
    "errorSends w' = errorSends v" "pc w' = pc v" "delivered w' = delivered v"
    "userStop w' = userStop v" "initialProjects w' = initialProjects v"
    by blast
  with e show ?case by (simp add: v_def)
qed

lemma overflow_step:
  assumes "relevant g c w" "registered w" "\<not> intakeBlocked w"
    "cacheIncomingCap w \<le> length (cacheIncoming w)" "cacheError w = None"
  shows "\<exists>w' msg. exec (Notify c g) w = Some w' \<and> \<not> registered w' \<and>
           cacheError w' = Some msg \<and>
           (msg = ''delete notification timeout'' \<or> msg = ''add notification timeout'') \<and>
           errorSends w' = errorSends w + 1 \<and> cacheIncoming w' = cacheIncoming w \<and>
           enqueued w' = enqueued w \<and> pc w' = pc w \<and> delivered w' = delivered w \<and>
           userStop w' = userStop w \<and> initialProjects w' = initialProjects w"
proof -
  from relevant_overflows [OF assms(1,4,5)] obtain msg known' where
    h: "GroupMembershipChanged g c w =
             Returns (w\<lparr>cacheError := Some msg, knownProjects := known', registered := False,
                        errorSends := errorSends w + 1, intakeRemoves := intakeRemoves w + 1\<rparr>)"
      "msg = ''delete notification timeout'' \<or> msg = ''add notification timeout''"
    by blast
  with assms(2,3) show ?thesis by (simp add: exec_def)
qed

lemma err_progress_step:
  assumes "exec a w = Some w'" "err_progress msg w" "inv_relay w"
  shows "err_progress msg w'"
  using assms(1)
proof (cases rule: exec_cases)
  case (send ev k)
  with assms(2,3) show ?thesis
    by (auto simp: err_progress_def inv_relay_def)
qed (use assms(2,3) in \<open>auto simp: err_progress_def inv_relay_def\<close>)

lemma unregistered_step:
  "exec a w = Some w' \<Longrightarrow> \<not> registered w \<Longrightarrow> \<not> registered w' \<and> \<not> is_notify a"
  by (cases rule: exec_cases) auto

lemma rank_step:
  assumes "exec a w = Some w'" "\<not> registered w" "inv_relay w"
  shows "if is_stop a then relay_rank w' = relay_rank w else relay_rank w' < relay_rank w"
  using assms(1)
proof (cases rule: exec_cases)
  case (snap_next i)
  then show ?thesis by (auto simp: relay_rank_def)
next
  case (recv_event ev rest)
  then show ?thesis by (auto simp: relay_rank_def)
qed (use assms(2,3) in \<open>auto simp: relay_rank_def inv_relay_def\<close>)

lemma rank_run:
  assumes "run as w = Some w'" "\<not> registered w" "inv w"
  shows "length (filter (\<lambda>a. \<not> is_stop a) as) + relay_rank w' \<le> relay_rank w"
  using assms
proof (induction as arbitrary: w)
  case Nil
  then show ?case by simp
next
  case (Cons a as)
  from Cons.prems(1) obtain v where v: "exec a w = Some v" "run as v = Some w'"
    by (auto split: option.splits)
  from unregistered_step [OF v(1) Cons.prems(2)] have u: "\<not> registered v" by simp
  from inv_step [OF Cons.prems(3) v(1)] have i: "inv v" .
  from Cons.prems(3) have "inv_relay w" by (simp add: inv_def)
  from rank_step [OF v(1) Cons.prems(2) this] Cons.IH [OF v(2) u i]
  show ?case by (auto split: if_splits)
qed

lemma err_progress_enabled:
  assumes "err_progress msg w" "\<not> userStop w" "pc w \<noteq> Exited"
  shows "\<exists>a w'. \<not> is_stop a \<and> \<not> is_notify a \<and> exec a w = Some w'"
proof (cases "pc w")
  case (Snapshot i)
  then have "exec Advance w \<noteq> None"
    by (simp add: exec_def Watch_def emit_def split: option.splits)
  then show ?thesis by (intro exI [of _ Advance]) auto
next
  case Steady
  with assms(1,2) obtain m where "cacheError w = Some m"
    by (auto simp: err_progress_def)
  with Steady have "exec RecvError w \<noteq> None"
    by (simp add: exec_def Watch_def emit_def)
  then show ?thesis by (intro exI [of _ RecvError]) auto
next
  case (Emitting ev k)
  then have "exec SendOutgoing w \<noteq> None"
    by (simp add: exec_def Watch_def emit_def)
  then show ?thesis by (intro exI [of _ SendOutgoing]) auto
next
  case Returning
  then have "exec Advance w \<noteq> None"
    by (simp add: exec_def Watch_def emit_def)
  then show ?thesis by (intro exI [of _ Advance]) auto
next
  case Closing
  then have "exec Advance w \<noteq> None"
    by (simp add: exec_def Watch_def emit_def split: sum.splits)
  then show ?thesis by (intro exI [of _ Advance]) auto
next
  case Exited
  with assms(3) show ?thesis by simp
qed

lemma notify_frame:
  assumes "exec (Notify c g) w = Some w'"
  shows "pc w' = pc w \<and> delivered w' = delivered w \<and> userStop w' = userStop w \<and>
         initialProjects w' = initialProjects w"
  using assms
proof (cases rule: exec_cases)
  case (notify c' g')
  with handler_frame [of g c w w'] show ?thesis by simp
next
  case (notify_block c' g' v)
  with handler_frame [of g c w v] show ?thesis by simp
qed simp_all

lemma finishing_step:
  assumes "exec a w = Some w'" "finishing (pc w)"
  shows "finishing (pc w') \<and> delivered w' = delivered w"
proof (cases "is_notify a")
  case True
  then obtain c g where "a = Notify c g" by (cases a) simp_all
  with notify_frame [of c g w w'] assms show ?thesis by simp
next
  case False
  with assms show ?thesis by (cases rule: exec_cases) auto
qed

lemma finishing_run:
  "run as w = Some w' \<Longrightarrow> finishing (pc w) \<Longrightarrow> finishing (pc w') \<and> delivered w' = delivered w"
proof (induction as arbitrary: w)
  case Nil
  then show ?case by simp
next
  case (Cons a as)
  from Cons.prems(1) obtain v where v: "exec a w = Some v" "run as v = Some w'"
    by (auto split: option.splits)
  from finishing_step [OF v(1) Cons.prems(2)] Cons.IH [OF v(2)] show ?case by simp
qed

lemma error_taken_step:
  assumes "exec a w = Some w'" "pc w = Emitting e Returning"
  shows "(pc w' = Emitting e Returning \<and> delivered w' = delivered w) \<or>
         (finishing (pc w') \<and> (delivered w' = delivered w \<or> delivered w' = delivered w @ [e]))"
proof (cases "is_notify a")
  case True
  then obtain c g where "a = Notify c g" by (cases a) simp_all
  with notify_frame [of c g w w'] assms show ?thesis by simp
next
  case False
  with assms show ?thesis by (cases rule: exec_cases) auto
qed

lemma error_taken_run:
  assumes "run as w = Some w'" "pc w = Emitting e Returning"
  shows "delivered w' = delivered w \<or> delivered w' = delivered w @ [e]"
  using assms
proof (induction as arbitrary: w)
  case Nil
  then show ?case by simp
next
  case (Cons a as)
  from Cons.prems(1) obtain v where v: "exec a w = Some v" "run as v = Some w'"
    by (auto split: option.splits)
  from error_taken_step [OF v(1) Cons.prems(2)] show ?case
  proof
    assume "pc v = Emitting e Returning \<and> delivered v = delivered w"
    with Cons.IH [OF v(2)] show ?thesis by simp
  next
    assume f: "finishing (pc v) \<and> (delivered v = delivered w \<or> delivered v = delivered w @ [e])"
    with finishing_run [OF v(2)] show ?thesis by auto
  qed
qed

lemma err_progress_run:
  assumes "run as w = Some w'" "err_progress msg w" "inv w"
  shows "err_progress msg w'"
  using assms
proof (induction as arbitrary: w)
  case Nil
  then show ?case by simp
next
  case (Cons a as)
  from Cons.prems(1) obtain v where v: "exec a w = Some v" "run as v = Some w'"
    by (auto split: option.splits)
  from Cons.prems(3) have "inv_relay w" by (simp add: inv_def)
  from err_progress_step [OF v(1) Cons.prems(2) this] inv_step [OF Cons.prems(3) v(1)]
    Cons.IH [OF v(2)]
  show ?case by simp
qed

lemma one_error_last:
  assumes "\<forall>e \<in> set (butlast xs). \<not> is_error e"
  shows "length (filter is_error xs) \<le> 1"
proof (cases xs rule: rev_cases)
  case Nil
  then show ?thesis by simp
next
  case (snoc ys y)
  with assms have "filter is_error ys = []" by (simp add: filter_empty_conv)
  with snoc show ?thesis by simp
qed

lemma exec_initial: "exec a w = Some w' \<Longrightarrow> initialProjects w' = initialProjects w"
proof (cases "is_notify a")
  case True
  assume e: "exec a w = Some w'"
  from True obtain c g where "a = Notify c g" by (cases a) simp_all
  with notify_frame [of c g w w'] e show ?thesis by simp
next
  case False
  assume e: "exec a w = Some w'"
  from e False show ?thesis by (cases rule: exec_cases) auto
qed

lemma run_initial: "run as w = Some w' \<Longrightarrow> initialProjects w' = initialProjects w"
proof (induction as arbitrary: w)
  case Nil
  then show ?case by simp
next
  case (Cons a as)
  from Cons.prems obtain v where v: "exec a w = Some v" "run as v = Some w'"
    by (auto split: option.splits)
  from exec_initial [OF v(1)] Cons.IH [OF v(2)] show ?case by simp
qed

lemmas eval_simps =
  exec_def Watch_def emit_def GroupMembershipChanged_def enqueue_def hasAccess_def removed_def
  RemoveWatcher_intake_def RemoveWatcher_relay_def Stop_def close_chan_def hwm_Update_def
  example_watcher_def NewUserProjectWatcher_def subscribe_def grant_def revoke_def
  unrelated_def all_namespaces_def no_namespaces_def ConvertNamespace_def makeErrorEvent_def
  added_event_def

lemma example_fresh: "fresh (example_watcher items incl)"
  by (simp add: fresh_def example_watcher_def NewUserProjectWatcher_def subscribe_def)

lemma subseq_filter_delivered:
  assumes "inv_order w"
  shows "subseq (filter (\<lambda>e. \<not> is_error e) (delivered w)) (snapshot_events w @ enqueued w)"
proof -
  have "subseq (filter (\<lambda>e. \<not> is_error e) (delivered w))
               (filter (\<lambda>e. \<not> is_error e) (handover w))"
    by (simp add: handover_def)
  moreover from assms
  have "subseq (filter (\<lambda>e. \<not> is_error e) (handover w)) (snapshot_events w @ enqueued w)"
    by (simp add: inv_order_def)
  ultimately show ?thesis using subseq_order.trans by blast
qed

lemma grant_known_step:
  assumes "username w = ''alice''" "n \<in> knownProjects w" "registered w" "\<not> intakeBlocked w"
    "length (cacheIncoming w) < cacheIncomingCap w"
  shows "exec (Notify (grant n) all_namespaces) w =
           Some (w\<lparr>cacheIncoming := cacheIncoming w @ [modified_event n],
                   enqueued := enqueued w @ [modified_event n]\<rparr>)"
  using assms
  by (simp add: exec_def GroupMembershipChanged_def enqueue_def hasAccess_def removed_def
        grant_def all_namespaces_def ConvertNamespace_def modified_event_def insert_absorb)

lemma flood_run:
  assumes "username w = ''alice''" "n \<in> knownProjects w" "registered w" "\<not> intakeBlocked w"
    "length (cacheIncoming w) + k \<le> cacheIncomingCap w"
  shows "run (flood n k) w =
           Some (w\<lparr>cacheIncoming := cacheIncoming w @ replicate k (modified_event n),
                   enqueued := enqueued w @ replicate k (modified_event n)\<rparr>)"
  using assms
proof (induction k arbitrary: w)
  case 0
  then show ?case by (simp add: flood_def)
next
  case (Suc k)
  let ?v = "w\<lparr>cacheIncoming := cacheIncoming w @ [modified_event n],
                   enqueued := enqueued w @ [modified_event n]\<rparr>"
  from Suc.prems have e: "exec (Notify (grant n) all_namespaces) w = Some ?v"
    by (intro grant_known_step) simp_all
  from Suc.prems have "run (flood n k) ?v =
      Some (?v\<lparr>cacheIncoming := cacheIncoming ?v @ replicate k (modified_event n),
                   enqueued := enqueued ?v @ replicate k (modified_event n)\<rparr>)"
    by (intro Suc.IH) simp_all
  with e show ?case by (simp add: flood_def)
qed

lemma last_event_type_replicate:
  "event_name e \<noteq> Some n \<Longrightarrow> last_event_type n (es @ replicate k e) = last_event_type n es"
proof (induction k)
  case 0
  then show ?case by simp
next
  case (Suc k)
  have "es @ replicate (Suc k) e = (es @ replicate k e) @ [e]"
    by (simp add: replicate_append_same)
  with Suc show ?case by (simp only: last_event_type_snoc) simp
qed

lemma relevant_changes_prefix:
  "relevant_changes (as @ bs) w \<Longrightarrow> relevant_changes as w"
proof (induction as arbitrary: w)
  case Nil
  then show ?case by simp
next
  case (Cons a as)
  then show ?case by (cases a) simp_all
qed

lemma fill_buffer_rest:
  assumes "relevant_changes (as @ bs) w" "registered w" "\<not> intakeBlocked w"
    "length (cacheIncoming w) + length as \<le> cacheIncomingCap w"
  shows "\<exists>w'. run as w = Some w' \<and> relevant_changes bs w'"
  using assms
proof (induction as arbitrary: w)
  case Nil
  then show ?case by simp
next
  case (Cons a as)
  from Cons.prems(1) obtain c g where a: "a = Notify c g"
    by (cases a) simp_all
  with Cons.prems(1) have rel: "relevant g c w"
    and rest: "relevant_changes (as @ bs) (state_of (GroupMembershipChanged g c w))"
    by simp_all
  from Cons.prems(4) have room: "length (cacheIncoming w) < cacheIncomingCap w" by simp
  from relevant_enqueues [OF rel room] obtain ev known' where
    h: "GroupMembershipChanged g c w =
           Returns (w\<lparr>cacheIncoming := cacheIncoming w @ [ev], knownProjects := known',
                      enqueued := enqueued w @ [ev]\<rparr>)"
    by blast
  define v where "v = w\<lparr>cacheIncoming := cacheIncoming w @ [ev], knownProjects := known',
                      enqueued := enqueued w @ [ev]\<rparr>"
  from h Cons.prems(2,3) a have e: "exec a w = Some v"
    by (simp add: exec_def v_def)
  from rest h have 1: "relevant_changes (as @ bs) v" by (simp add: v_def)
  have 2: "registered v" "\<not> intakeBlocked v"
    "length (cacheIncoming v) + length as \<le> cacheIncomingCap v"
    using Cons.prems(2-4) by (simp_all add: v_def)
  from Cons.IH [OF 1 2] e show ?case by simp
qed

lemma inv_run_from: "inv w \<Longrightarrow> run as w = Some w' \<Longrightarrow> inv w'"
  using run_invariant [of inv w as w'] inv_step by blast

lemma exited_delivery:
  assumes "err_progress msg w" "inv w" "\<not> userStop w" "pc w = Exited"
  shows "outgoingClosed w \<and>
         (\<exists>evs. delivered w = evs @ [makeErrorEvent msg] \<and> (\<forall>e \<in> set evs. \<not> is_error e))"
proof -
  from assms(1,3,4) have d: "delivered w \<noteq> []" "last (delivered w) = makeErrorEvent msg"
    by (auto simp: err_progress_def)
  then have "delivered w = butlast (delivered w) @ [makeErrorEvent msg]"
    by (metis append_butlast_last_id)
  moreover from assms(2) have "\<forall>e \<in> set (butlast (delivered w)). \<not> is_error e"
    by (simp add: inv_def inv_events_def)
  moreover from assms(2,4) have "outgoingClosed w"
    by (simp add: inv_def inv_relay_def)
  ultimately show ?thesis by blast
qed

lemma replicate_1000: "replicate 1000 x = x # replicate 999 x"
proof -
  have "(1000::nat) = Suc 999" by simp
  then show ?thesis by (simp only: replicate_Suc)
qed

lemma late_error_overflow:
  "run (flood ''a'' 1000 @ [Notify (grant ''a'') all_namespaces]) late_error_start =
     Some late_error_overflowed"
proof -
  let ?w1 = "late_error_start
       \<lparr>cacheIncoming := cacheIncoming late_error_start @ replicate 1000 (modified_event ''a''),
        enqueued := enqueued late_error_start @ replicate 1000 (modified_event ''a'')\<rparr>"
  have 1: "run (flood ''a'' 1000) late_error_start = Some ?w1"
    by (rule flood_run) (simp_all add: late_error_start_def example_watcher_simps eval_simps)
  have 2: "exec (Notify (grant ''a'') all_namespaces) ?w1 = Some late_error_overflowed"
    by (simp add: late_error_overflowed_def late_error_start_def eval_simps)
  from 1 2 show ?thesis by (simp add: run_append)
qed







lemma pending_zero:
  "live p \<Longrightarrow> pending p n b = 0 \<longleftrightarrow> p = Steady \<and> b = 0"
  by (cases p) simp_all

lemma relay_pending_step:
  assumes "exec a w = Some w'" "is_relay a" "errorSends w = 0" "\<not> userStop w" "inv w"
  shows "relay_pending w = Suc (relay_pending w') \<and> errorSends w' = 0 \<and> \<not> userStop w' \<and>
         enqueued w' = enqueued w"
  using assms(1)
proof (cases rule: exec_cases)
  case (notify c g)
  with assms(2) show ?thesis by simp
next
  case (notify_block c g v)
  with assms(2) show ?thesis by simp
next
  case stop
  with assms(2) show ?thesis by simp
next
  case (snap_next i)
  with assms(3,4) show ?thesis by (auto simp: relay_pending_def)
next
  case (snap_done i)
  with assms(3,4) show ?thesis by (auto simp: relay_pending_def)
next
  case (recv_event ev rest)
  with assms(3,4) show ?thesis by (auto simp: relay_pending_def)
next
  case (send ev k)
  with assms(3,4) show ?thesis by (auto simp: relay_pending_def)
qed (use assms(3-5) in \<open>auto simp: inv_def inv_slot_def inv_relay_def\<close>)

lemma relay_pending_run:
  assumes "run bs w = Some v" "\<forall>a \<in> set bs. is_relay a" "errorSends w = 0" "\<not> userStop w" "inv w"
  shows "length bs + relay_pending v = relay_pending w \<and> errorSends v = 0 \<and> \<not> userStop v \<and>
         enqueued v = enqueued w"
  using assms
proof (induction bs arbitrary: w)
  case Nil
  then show ?case by simp
next
  case (Cons a bs)
  from Cons.prems(1) obtain u where u: "exec a w = Some u" "run bs u = Some v"
    by (auto split: option.splits)
  from Cons.prems(2) have a: "is_relay a" and bs: "\<forall>a \<in> set bs. is_relay a" by simp_all
  from relay_pending_step [OF u(1) a Cons.prems(3-5)]
  have s: "relay_pending w = Suc (relay_pending u)" "errorSends u = 0" "\<not> userStop u"
    "enqueued u = enqueued w" by simp_all
  from inv_step [OF Cons.prems(5) u(1)] have "inv u" .
  from Cons.IH [OF u(2) bs s(2,3) this] s show ?case by simp
qed

lemma relay_enabled:
  assumes "errorSends w = 0" "\<not> userStop w" "inv w" "0 < relay_pending w"
  shows "\<exists>a v. is_relay a \<and> exec a w = Some v"
proof (cases "pc w")
  case (Snapshot i)
  then have "exec Advance w \<noteq> None"
    by (simp add: exec_def Watch_def split: option.splits)
  then show ?thesis by (intro exI [of _ Advance]) auto
next
  case Steady
  with assms(4) obtain ev rest where "cacheIncoming w = ev # rest"
    by (cases "cacheIncoming w") (simp_all add: relay_pending_def)
  with Steady have "exec RecvEvent w \<noteq> None"
    by (simp add: exec_def Watch_def)
  then show ?thesis by (intro exI [of _ RecvEvent]) auto
next
  case (Emitting ev k)
  then have "exec SendOutgoing w \<noteq> None"
    by (simp add: exec_def Watch_def emit_def)
  then show ?thesis by (intro exI [of _ SendOutgoing]) auto
qed (use assms(4) in \<open>simp_all add: relay_pending_def\<close>)

lemma relay_drains:
  assumes "relay_pending w = n" "errorSends w = 0" "\<not> userStop w" "inv w"
  shows "\<exists>bs v. (\<forall>a \<in> set bs. is_relay a) \<and> length bs = n \<and> run bs w = Some v \<and>
               relay_pending v = 0 \<and> errorSends v = 0 \<and> \<not> userStop v \<and> inv v \<and>
               enqueued v = enqueued w"
  using assms
proof (induction n arbitrary: w)
  case 0
  then show ?case by (intro exI [of _ "[]"] exI [of _ w]) simp
next
  case (Suc n)
  from Suc.prems(1) have "0 < relay_pending w" by simp
  from relay_enabled [OF Suc.prems(2-4) this] obtain a u where
    a: "is_relay a" "exec a w = Some u" by blast
  from relay_pending_step [OF a(2,1) Suc.prems(2-4)] Suc.prems(1)
  have s: "relay_pending u = n" "errorSends u = 0" "\<not> userStop u" "enqueued u = enqueued w"
    by simp_all
  from inv_step [OF Suc.prems(4) a(2)] have i: "inv u" .
  from Suc.IH [OF s(1-3) i] obtain bs v where
    b: "\<forall>a \<in> set bs. is_relay a" "length bs = n" "run bs u = Some v"
      "relay_pending v = 0" "errorSends v = 0" "\<not> userStop v" "inv v" "enqueued v = enqueued u"
    by blast
  with a s(4) show ?case
    by (intro exI [of _ "a # bs"] exI [of _ v]) simp
qed

lemma snapshot_events_explicit:
  "snapshot_events w = map (\<lambda>ns. \<lparr>Type = Added, Object = Project ns\<rparr>) (initialProjects w)"
  by (simp add: snapshot_events_def added_event_def ConvertNamespace_def)

lemma makeErrorEvent_explicit: "makeErrorEvent msg = \<lparr>Type = Error, Object = Status msg\<rparr>"
  by (simp add: makeErrorEvent_def)

section \<open>The intake handler, the constructor and Stop on their own\<close>

text \<open>
  Claim C1. In every call of the intake handler, \<open>hasAccess\<close> holds iff the username is
  in \<open>latestUsers\<close> or one of the groups is in \<open>latestGroups\<close>, and \<open>removed\<close> holds iff
  \<open>hasAccess\<close> does not and the username is in \<open>removedUsers\<close> or one of the groups is in
  \<open>removedGroups\<close>. With neither, the call returns the state as it was. With
  \<open>hasAccess\<close> and a successful lookup, the name of the namespace found is inserted into
  \<open>knownProjects\<close>; when the lookup answers with the namespace asked for and the buffer
  has room, the event enqueued is Modified if the name was known and Added otherwise.
\<close>

theorem intake_handler_cases:
  "(hasAccess w c \<longleftrightarrow> username w \<in> latestUsers c \<or> (\<exists>g \<in> set (groups w). g \<in> latestGroups c)) \<and>
   (removed w c \<longleftrightarrow>
      \<not> hasAccess w c \<and> (username w \<in> removedUsers c \<or> (\<exists>g \<in> set (groups w). g \<in> removedGroups c))) \<and>
   (\<not> hasAccess w c \<and> \<not> removed w c \<longrightarrow> GroupMembershipChanged getNamespace c w = Returns w) \<and>
   (hasAccess w c \<and> getNamespace (namespaceName c) = Inr ns \<longrightarrow>
      knownProjects (state_of (GroupMembershipChanged getNamespace c w)) =
        insert (Name ns) (knownProjects w)) \<and>
   (hasAccess w c \<and> getNamespace (namespaceName c) = Inr ns \<and> Name ns = namespaceName c \<and>
    length (cacheIncoming w) < cacheIncomingCap w \<longrightarrow>
      GroupMembershipChanged getNamespace c w =
        Returns (w\<lparr>knownProjects := insert (namespaceName c) (knownProjects w),
                   cacheIncoming := cacheIncoming w @
                     [\<lparr>Type = (if namespaceName c \<in> knownProjects w then Modified else Added),
                       Object = ConvertNamespace ns\<rparr>],
                   enqueued := enqueued w @
                     [\<lparr>Type = (if namespaceName c \<in> knownProjects w then Modified else Added),
                       Object = ConvertNamespace ns\<rparr>]\<rparr>))"
  apply (intro conjI impI)
  subgoal by (simp add: hasAccess_def HasAny_iff)
  subgoal by (simp add: removed_def HasAny_iff)
  subgoal by (simp add: GroupMembershipChanged_def)
  subgoal by (simp add: GroupMembershipChanged_def removed_def enqueue_known)
  subgoal by (simp add: GroupMembershipChanged_def removed_def enqueue_room)
  done

text \<open>
  Claim C8. A change with \<open>hasAccess\<close> whose lookup fails returns the state as it was:
  no event is enqueued, \<open>knownProjects\<close> and the buffer are unchanged, no error is
  recorded and the watcher stays registered.
\<close>

theorem lookup_failure_skips:
  "hasAccess w c \<Longrightarrow> getNamespace (namespaceName c) = Inl err \<Longrightarrow>
   GroupMembershipChanged getNamespace c w = Returns w"
  by (simp add: GroupMembershipChanged_def removed_def)

text \<open>
  Claim C9. A removal for a name that is not in \<open>knownProjects\<close> returns the state as it
  was: no event, and \<open>knownProjects\<close>, the buffer, the error slot and the registration
  are unchanged.
\<close>

theorem unknown_removal_noop:
  "removed w c \<Longrightarrow> namespaceName c \<notin> knownProjects w \<Longrightarrow>
   GroupMembershipChanged getNamespace c w = Returns w"
  by (simp add: GroupMembershipChanged_def)

text \<open>
  Claim C10. The constructor ignores the error of \<open>authCache.List\<close>: whenever a list is
  returned, with or without an error, \<open>knownProjects\<close> is the set of the names in it and
  \<open>initialProjects\<close> is the list itself if all existing projects were asked for and
  empty otherwise. When \<open>List\<close> returns an error and a nil list, construction
  dereferences nil and panics.
\<close>

theorem constructor_lists_or_crashes:
  "(authCache_List (uname, grps) = (Some items, err) \<longrightarrow>
      (\<exists>w. NewUserProjectWatcher uname grps authCache_List incl = Inr w \<and>
           knownProjects w = Name ` set items \<and>
           initialProjects w = (if incl then items else []))) \<and>
   (authCache_List (uname, grps) = (None, Some e) \<longrightarrow>
      NewUserProjectWatcher uname grps authCache_List incl = Inl ''nil pointer dereference'')"
  by (simp add: NewUserProjectWatcher_def foldl_insert_names)


text \<open>
  The handler on a new watcher of \<open>alice\<close>: a grant of namespace \<open>a\<close> enqueues Added, a
  change that concerns \<open>bob\<close> only does nothing.
\<close>

theorem intake_handler_cases_witness:
  "hasAccess (example_watcher [] False) (grant ''a'') \<and>
   all_namespaces (namespaceName (grant ''a'')) = Inr \<lparr>Name = ''a'', ResourceVersion = ''1''\<rparr> \<and>
   length (cacheIncoming (example_watcher [] False)) < cacheIncomingCap (example_watcher [] False) \<and>
   GroupMembershipChanged all_namespaces (grant ''a'') (example_watcher [] False) =
     Returns ((example_watcher [] False)
       \<lparr>knownProjects := {''a''},
        cacheIncoming := [\<lparr>Type = Added, Object = Project \<lparr>Name = ''a'', ResourceVersion = ''1''\<rparr>\<rparr>],
        enqueued := [\<lparr>Type = Added, Object = Project \<lparr>Name = ''a'', ResourceVersion = ''1''\<rparr>\<rparr>]\<rparr>) \<and>
   \<not> hasAccess (example_watcher [] False) (unrelated ''a'') \<and>
   \<not> removed (example_watcher [] False) (unrelated ''a'') \<and>
   GroupMembershipChanged all_namespaces (unrelated ''a'') (example_watcher [] False) =
     Returns (example_watcher [] False)"
proof -
  let ?w = "example_watcher [] False"
  let ?ns = "\<lparr>Name = ''a'', ResourceVersion = ''1''\<rparr>"
  have h: "hasAccess ?w (grant ''a'')" "all_namespaces (namespaceName (grant ''a'')) = Inr ?ns"
    "Name ?ns = namespaceName (grant ''a'')" "length (cacheIncoming ?w) < cacheIncomingCap ?w"
    "namespaceName (grant ''a'') \<notin> knownProjects ?w"
    by (simp_all add: example_access example_watcher_simps all_namespaces_def grant_name)
  have n: "\<not> hasAccess ?w (unrelated ''a'')" "\<not> removed ?w (unrelated ''a'')"
    by (simp_all add: example_access)
  from intake_handler_cases [of ?w "grant ''a''" all_namespaces ?ns] h
  have 1: "GroupMembershipChanged all_namespaces (grant ''a'') ?w =
        Returns (?w\<lparr>knownProjects := insert (namespaceName (grant ''a'')) (knownProjects ?w),
                   cacheIncoming := cacheIncoming ?w @ [\<lparr>Type = Added, Object = ConvertNamespace ?ns\<rparr>],
                   enqueued := enqueued ?w @ [\<lparr>Type = Added, Object = ConvertNamespace ?ns\<rparr>]\<rparr>)"
    by simp
  from intake_handler_cases [of ?w "unrelated ''a''" all_namespaces ?ns] n
  have 2: "GroupMembershipChanged all_namespaces (unrelated ''a'') ?w = Returns ?w"
    by blast
  have e: "enqueued ?w = []"
    by (simp add: example_watcher_def NewUserProjectWatcher_def subscribe_def)
  show ?thesis
    using h(1,2,4) n 1 2 e by (simp add: example_watcher_simps grant_name ConvertNamespace_def)
qed

theorem lookup_failure_skips_witness:
  "hasAccess (example_watcher [] False) (grant ''a'') \<and>
   no_namespaces (namespaceName (grant ''a'')) = Inl ''not found'' \<and>
   GroupMembershipChanged no_namespaces (grant ''a'') (example_watcher [] False) =
     Returns (example_watcher [] False)"
proof -
  have h: "hasAccess (example_watcher [] False) (grant ''a'')"
    "no_namespaces (namespaceName (grant ''a'')) = Inl ''not found''"
    by (simp_all add: example_access no_namespaces_def)
  from lookup_failure_skips [of "example_watcher [] False" "grant ''a''" no_namespaces "''not found''"] h
  show ?thesis by simp
qed

theorem unknown_removal_noop_witness:
  "removed (example_watcher [] False) (revoke ''a'') \<and>
   namespaceName (revoke ''a'') \<notin> knownProjects (example_watcher [] False) \<and>
   GroupMembershipChanged all_namespaces (revoke ''a'') (example_watcher [] False) =
     Returns (example_watcher [] False)"
proof -
  have h: "removed (example_watcher [] False) (revoke ''a'')"
    "namespaceName (revoke ''a'') \<notin> knownProjects (example_watcher [] False)"
    by (simp_all add: example_access example_watcher_simps)
  from unknown_removal_noop [of "example_watcher [] False" "revoke ''a''" all_namespaces] h
  show ?thesis by simp
qed

theorem constructor_lists_or_crashes_witness:
  "(\<exists>w. NewUserProjectWatcher ''alice'' [''dev'']
          (\<lambda>u. (Some [\<lparr>Name = ''a'', ResourceVersion = ''1''\<rparr>], Some ''stale'')) True = Inr w \<and>
        knownProjects w = {''a''} \<and>
        initialProjects w = [\<lparr>Name = ''a'', ResourceVersion = ''1''\<rparr>]) \<and>
   NewUserProjectWatcher ''alice'' [''dev''] (\<lambda>u. (None, Some ''unavailable'')) True =
     Inl ''nil pointer dereference''"
  using constructor_lists_or_crashes [where authCache_List = "\<lambda>u. (Some [\<lparr>Name = ''a'', ResourceVersion = ''1''\<rparr>], Some ''stale'')"
      and uname = "''alice''" and grps = "[''dev'']" and incl = True
      and items = "[\<lparr>Name = ''a'', ResourceVersion = ''1''\<rparr>]" and err = "Some ''stale''"]
    constructor_lists_or_crashes [where authCache_List = "\<lambda>u. (None, Some ''unavailable'')"
      and uname = "''alice''" and grps = "[''dev'']" and incl = True and e = "''unavailable''"]
  by simp


section \<open>The relay loop\<close>

text \<open>
  Claim C3. As long as no overflow has happened (and nobody has cancelled), what the
  consumer has received, followed by what the loop still has to hand over, is the
  snapshot, each entry as an event of type Added carrying that entry, in snapshot order,
  followed by the events in the order the handler enqueued them; so the consumer has a
  prefix of that sequence. The loop does deliver it: unless it waits on an empty buffer
  with everything handed over, one of its steps is enabled; every step of the loop
  brings it one step closer, whatever the choice; and when the loop and the consumer
  take the steps that remain, the consumer has received the whole sequence. In every
  run the delivered events, an error event apart, are a subsequence of that sequence.
\<close>

theorem relay_order:
  assumes "fresh w0" "run as w0 = Some w"
  shows "(errorSends w = 0 \<and> \<not> userStop w \<longrightarrow>
            delivered w @
              upcoming (pc w) (map (\<lambda>ns. \<lparr>Type = Added, Object = Project ns\<rparr>) (initialProjects w0))
                (cacheIncoming w) =
              map (\<lambda>ns. \<lparr>Type = Added, Object = Project ns\<rparr>) (initialProjects w0) @ enqueued w \<and>
            prefix (delivered w)
              (map (\<lambda>ns. \<lparr>Type = Added, Object = Project ns\<rparr>) (initialProjects w0) @ enqueued w) \<and>
            (relay_pending w = 0 \<longleftrightarrow> pc w = Steady \<and> cacheIncoming w = []) \<and>
            (0 < relay_pending w \<longrightarrow> (\<exists>a v. is_relay a \<and> exec a w = Some v)) \<and>
            (\<forall>bs v. (\<forall>a \<in> set bs. is_relay a) \<and> run bs w = Some v \<longrightarrow>
               length bs + relay_pending v = relay_pending w \<and> errorSends v = 0 \<and>
               \<not> userStop v \<and> enqueued v = enqueued w) \<and>
            (\<exists>bs v. (\<forall>a \<in> set bs. is_relay a) \<and> length bs = relay_pending w \<and>
               run bs w = Some v \<and>
               delivered v =
                 map (\<lambda>ns. \<lparr>Type = Added, Object = Project ns\<rparr>) (initialProjects w0) @
                 enqueued w)) \<and>
         (errorSends w = 0 \<and> \<not> userStop w \<and> pc w = Steady \<and> cacheIncoming w = [] \<longrightarrow>
            delivered w =
              map (\<lambda>ns. \<lparr>Type = Added, Object = Project ns\<rparr>) (initialProjects w0) @ enqueued w) \<and>
         subseq (filter (\<lambda>e. \<not> is_error e) (delivered w))
           (map (\<lambda>ns. \<lparr>Type = Added, Object = Project ns\<rparr>) (initialProjects w0) @ enqueued w)"
proof -
  let ?snap = "map (\<lambda>ns. \<lparr>Type = Added, Object = Project ns\<rparr>) (initialProjects w0)"
  from inv_run [OF assms] have i: "inv w" .
  then have o: "inv_order w" and sl: "inv_slot w" by (simp_all add: inv_def)
  from run_initial [OF assms(2)] have s: "snapshot_events w = ?snap"
    by (simp add: snapshot_events_explicit)
  have full: "delivered v = ?snap @ enqueued v"
    if "run bs w = Some v" "errorSends v = 0" "\<not> userStop v" "pc v = Steady" "cacheIncoming v = []"
    for bs v
  proof -
    from inv_run_from [OF i that(1)] have "inv_order v" by (simp add: inv_def)
    moreover from run_initial [OF that(1)] run_initial [OF assms(2)]
    have "snapshot_events v = ?snap" by (simp add: snapshot_events_explicit)
    ultimately show ?thesis using that(2-5) by (simp add: inv_order_def handover_def)
  qed
  have 1: "delivered w @ upcoming (pc w) ?snap (cacheIncoming w) = ?snap @ enqueued w"
    if "errorSends w = 0" "\<not> userStop w"
    using o that s by (simp add: inv_order_def handover_def)
  have 2: "prefix (delivered w) (?snap @ enqueued w)"
    if "errorSends w = 0" "\<not> userStop w"
    using 1 [OF that] by (metis prefixI)
  have 3: "delivered w = ?snap @ enqueued w"
    if "errorSends w = 0" "\<not> userStop w" "pc w = Steady" "cacheIncoming w = []"
    using 1 [OF that(1,2)] that(3,4) by simp
  have 4: "relay_pending w = 0 \<longleftrightarrow> pc w = Steady \<and> cacheIncoming w = []"
    if "errorSends w = 0" "\<not> userStop w"
  proof -
    from sl that have "live (pc w)" by (simp add: inv_slot_def)
    from pending_zero [OF this] show ?thesis by (simp add: relay_pending_def)
  qed
  have 5: "\<exists>a v. is_relay a \<and> exec a w = Some v"
    if "errorSends w = 0" "\<not> userStop w" "0 < relay_pending w"
    using relay_enabled [OF that(1,2) i that(3)] .
  have 6: "length bs + relay_pending v = relay_pending w \<and> errorSends v = 0 \<and>
               \<not> userStop v \<and> enqueued v = enqueued w"
    if "errorSends w = 0" "\<not> userStop w" "\<forall>a \<in> set bs. is_relay a" "run bs w = Some v" for bs v
    using relay_pending_run [OF that(4,3,1,2) i] .
  have 7: "\<exists>bs v. (\<forall>a \<in> set bs. is_relay a) \<and> length bs = relay_pending w \<and>
               run bs w = Some v \<and> delivered v = ?snap @ enqueued w"
    if "errorSends w = 0" "\<not> userStop w"
  proof -
    from relay_drains [OF refl that i] obtain bs v where
      b: "\<forall>a \<in> set bs. is_relay a" "length bs = relay_pending w" "run bs w = Some v"
        "relay_pending v = 0" "errorSends v = 0" "\<not> userStop v" "inv v" "enqueued v = enqueued w"
      by blast
    from b(7,5,6) have "live (pc v)" by (simp add: inv_def inv_slot_def)
    from pending_zero [OF this] b(4) have "pc v = Steady" "cacheIncoming v = []"
      by (simp_all add: relay_pending_def)
    from full [OF b(3,5,6) this] b(8) have "delivered v = ?snap @ enqueued w" by simp
    with b(1-3) show ?thesis by blast
  qed
  have 8: "subseq (filter (\<lambda>e. \<not> is_error e) (delivered w)) (?snap @ enqueued w)"
    using subseq_filter_delivered [OF o] s by simp
  from 1 2 3 4 5 6 7 8 show ?thesis by blast
qed

text \<open>
  A snapshot of one namespace, then a grant and a removal: the consumer receives the
  snapshot entry first and the two events in the order of the changes. And after the
  grant alone, with nothing handed over yet, five steps deliver the snapshot entry and
  the event.
\<close>

theorem relay_order_witness:
  "fresh (example_watcher [\<lparr>Name = ''a'', ResourceVersion = ''1''\<rparr>] True) \<and>
   (\<exists>w. run [Notify (grant ''b'') all_namespaces, Advance, SendOutgoing,
             Notify (revoke ''a'') all_namespaces, Advance, RecvEvent, SendOutgoing,
             RecvEvent, SendOutgoing]
          (example_watcher [\<lparr>Name = ''a'', ResourceVersion = ''1''\<rparr>] True) = Some w \<and>
        errorSends w = 0 \<and> \<not> userStop w \<and> pc w = Steady \<and> cacheIncoming w = [] \<and>
        delivered w =
          [\<lparr>Type = Added, Object = Project \<lparr>Name = ''a'', ResourceVersion = ''1''\<rparr>\<rparr>,
           \<lparr>Type = Added, Object = Project \<lparr>Name = ''b'', ResourceVersion = ''1''\<rparr>\<rparr>,
           \<lparr>Type = Deleted, Object = Project \<lparr>Name = ''a'', ResourceVersion = []\<rparr>\<rparr>]) \<and>
   (\<exists>w. run [Notify (grant ''b'') all_namespaces]
          (example_watcher [\<lparr>Name = ''a'', ResourceVersion = ''1''\<rparr>] True) = Some w \<and>
        errorSends w = 0 \<and> \<not> userStop w \<and> delivered w = [] \<and> relay_pending w = 5 \<and>
        (\<exists>bs v. length bs = 5 \<and> run bs w = Some v \<and>
           delivered v =
             [\<lparr>Type = Added, Object = Project \<lparr>Name = ''a'', ResourceVersion = ''1''\<rparr>\<rparr>,
              \<lparr>Type = Added, Object = Project \<lparr>Name = ''b'', ResourceVersion = ''1''\<rparr>\<rparr>]))"
proof -
  let ?w0 = "example_watcher [\<lparr>Name = ''a'', ResourceVersion = ''1''\<rparr>] True"
  let ?sched = "[Notify (grant ''b'') all_namespaces, Advance, SendOutgoing,
             Notify (revoke ''a'') all_namespaces, Advance, RecvEvent, SendOutgoing,
             RecvEvent, SendOutgoing]"
  let ?snap = "map (\<lambda>ns. \<lparr>Type = Added, Object = Project ns\<rparr>) (initialProjects ?w0)"
  have f: "fresh ?w0" by (rule example_fresh)
  obtain w where r: "run ?sched ?w0 = Some w"
    and p: "errorSends w = 0" "\<not> userStop w" "pc w = Steady" "cacheIncoming w = []"
    and e: "enqueued w =
          [\<lparr>Type = Added, Object = Project \<lparr>Name = ''b'', ResourceVersion = ''1''\<rparr>\<rparr>,
           \<lparr>Type = Deleted, Object = Project \<lparr>Name = ''a'', ResourceVersion = []\<rparr>\<rparr>]"
    by (simp add: eval_simps)
  have i: "?snap = [\<lparr>Type = Added, Object = Project \<lparr>Name = ''a'', ResourceVersion = ''1''\<rparr>\<rparr>]"
    by (simp add: example_watcher_simps)
  from relay_order [OF f r] p have "delivered w = ?snap @ enqueued w"
    by blast
  with i e have d: "delivered w =
          [\<lparr>Type = Added, Object = Project \<lparr>Name = ''a'', ResourceVersion = ''1''\<rparr>\<rparr>,
           \<lparr>Type = Added, Object = Project \<lparr>Name = ''b'', ResourceVersion = ''1''\<rparr>\<rparr>,
           \<lparr>Type = Deleted, Object = Project \<lparr>Name = ''a'', ResourceVersion = []\<rparr>\<rparr>]"
    by simp
  obtain u where r': "run [Notify (grant ''b'') all_namespaces] ?w0 = Some u"
    and p': "errorSends u = 0" "\<not> userStop u" "delivered u = []" "relay_pending u = 5"
    and e': "enqueued u =
          [\<lparr>Type = Added, Object = Project \<lparr>Name = ''b'', ResourceVersion = ''1''\<rparr>\<rparr>]"
    by (simp add: eval_simps relay_pending_def)
  from relay_order [OF f r'] p'(1,2)
  have "\<exists>bs v. (\<forall>a \<in> set bs. is_relay a) \<and> length bs = relay_pending u \<and>
               run bs u = Some v \<and> delivered v = ?snap @ enqueued u"
    by blast
  with i e' p'(4) have d': "\<exists>bs v. length bs = 5 \<and> run bs u = Some v \<and>
           delivered v =
             [\<lparr>Type = Added, Object = Project \<lparr>Name = ''a'', ResourceVersion = ''1''\<rparr>\<rparr>,
              \<lparr>Type = Added, Object = Project \<lparr>Name = ''b'', ResourceVersion = ''1''\<rparr>\<rparr>]"
    by auto
  from f r p d r' p' d' show ?thesis by blast
qed

text \<open>
  Claim C7. However the relay loop leaves its body (after handing over the error event,
  on seeing the cancellation, in the snapshot phase or in the steady phase), the deferred
  calls run: from \<open>Returning\<close> the loop deregisters and from \<open>Closing\<close> it closes
  \<open>outgoing\<close>, neither step can be refused, and in every reachable state the loop has
  deregistered at most once and closed \<open>outgoing\<close> at most once, exactly once each when
  it has exited; no close hits a closed channel.
\<close>

theorem relay_exit_once:
  assumes "fresh w0" "run as w0 = Some w"
  shows "fault w = None \<and> relayRemoves w \<le> 1 \<and> outgoingCloses w \<le> 1 \<and>
         (pc w = Exited \<longrightarrow>
            relayRemoves w = 1 \<and> outgoingCloses w = 1 \<and> outgoingClosed w \<and> \<not> registered w) \<and>
         (pc w \<noteq> Exited \<longrightarrow> outgoingCloses w = 0 \<and> \<not> outgoingClosed w) \<and>
         (pc w = Returning \<longrightarrow> (\<exists>v. exec Advance w = Some v \<and> pc v = Closing)) \<and>
         (pc w = Closing \<longrightarrow> (\<exists>v. exec Advance w = Some v \<and> pc v = Exited))"
proof -
  from inv_run [OF assms] have "inv_relay w" by (simp add: inv_def)
  then show ?thesis
    by (cases "pc w")
       (simp_all add: inv_relay_def exec_def Watch_def emit_def close_chan_def RemoveWatcher_relay_def)
qed

text \<open>
  A run in which the consumer stops the watch and the loop exits on the cancellation, and
  a run in which the buffer of two overflows and the loop exits after the error event.
\<close>

theorem relay_exit_once_witness:
  "fresh (example_watcher [] False) \<and>
   (\<exists>w. run [StopCall, Advance, RecvStop, Advance, Advance] (example_watcher [] False) = Some w \<and>
        pc w = Exited \<and> relayRemoves w = 1 \<and> outgoingCloses w = 1 \<and> outgoingClosed w \<and>
        \<not> registered w \<and> fault w = None) \<and>
   fresh small_watcher \<and>
   (\<exists>w. run [Notify (grant ''a'') all_namespaces, Notify (grant ''b'') all_namespaces,
             Notify (grant ''c'') all_namespaces, Advance, RecvError, SendOutgoing,
             Advance, Advance] small_watcher = Some w \<and>
        pc w = Exited \<and> relayRemoves w = 1 \<and> intakeRemoves w = 1 \<and> outgoingCloses w = 1 \<and>
        outgoingClosed w \<and> \<not> registered w \<and> fault w = None)"
proof -
  have f: "fresh (example_watcher [] False)" by (rule example_fresh)
  obtain w where r: "run [StopCall, Advance, RecvStop, Advance, Advance] (example_watcher [] False) = Some w"
    and p: "pc w = Exited"
    by (simp add: eval_simps)
  have f': "fresh small_watcher" by (simp add: small_watcher_def fresh_def eval_simps)
  obtain w' where r': "run [Notify (grant ''a'') all_namespaces, Notify (grant ''b'') all_namespaces,
             Notify (grant ''c'') all_namespaces, Advance, RecvError, SendOutgoing,
             Advance, Advance] small_watcher = Some w'"
    and p': "pc w' = Exited" "intakeRemoves w' = 1"
    by (simp add: small_watcher_def eval_simps)
  from relay_exit_once [OF f r] relay_exit_once [OF f' r'] p p' f f' r r' show ?thesis by simp
qed

section \<open>Overflow and the error slot\<close>

text \<open>
  Claim C2. In any reachable state of a registered watcher, whatever the relay loop is
  doing, changes that fill the room left in the buffer of capacity \<open>N\<close> (\<open>N\<close> changes
  when it is empty), delivered with no draining in between, leave the watcher registered
  with an empty error slot; the next relevant change deregisters the watcher and records
  one error (the only send on \<open>cacheError\<close> of the run), without enqueuing an event.
  From then on, whatever the interleaving: no further change reaches the handler, the
  loop takes a bounded number of steps, it can always take a next step until it has
  exited unless somebody cancels, and when it has exited without a cancellation the
  stream is closed and what the consumer received ends with one event of type Error
  whose status carries the recorded message, no earlier event being of type Error; after
  the exit nothing more is delivered. At most one Error event is delivered in any case.
\<close>

theorem overflow_terminal:
  assumes "fresh w00" "run pre w00 = Some w0" "registered w0"
    "length (cacheIncoming w0) + length cs = cacheIncomingCap w0"
    "relevant_changes (cs @ [Notify c g]) w0"
  shows "\<exists>w1 w2 msg.
      run cs w0 = Some w1 \<and> registered w1 \<and> cacheError w1 = None \<and> errorSends w1 = 0 \<and>
      length (cacheIncoming w1) = cacheIncomingCap w0 \<and>
      exec (Notify c g) w1 = Some w2 \<and> \<not> registered w2 \<and> cacheError w2 = Some msg \<and>
      (msg = ''delete notification timeout'' \<or> msg = ''add notification timeout'') \<and>
      errorSends w2 = 1 \<and> cacheIncoming w2 = cacheIncoming w1 \<and> enqueued w2 = enqueued w1 \<and>
      delivered w2 = delivered w0 \<and> pc w2 = pc w0 \<and>
      (\<forall>as w. run as w2 = Some w \<longrightarrow>
         errorSends w = 1 \<and> \<not> registered w \<and>
         length (filter (\<lambda>e. Type e = Error) (delivered w)) \<le> 1 \<and>
         length (filter (\<lambda>a. \<not> is_stop a) as) + relay_rank w \<le> relay_rank w2 \<and>
         (\<not> userStop w \<and> pc w \<noteq> Exited \<longrightarrow>
            (\<exists>a v. \<not> is_stop a \<and> \<not> is_notify a \<and> exec a w = Some v)) \<and>
         (\<not> userStop w \<and> pc w = Exited \<longrightarrow>
            outgoingClosed w \<and>
            (\<exists>evs. delivered w = evs @ [\<lparr>Type = Error, Object = Status msg\<rparr>] \<and>
                   (\<forall>e \<in> set evs. Type e \<noteq> Error))) \<and>
         (pc w = Exited \<longrightarrow> (\<forall>as' w'. run as' w = Some w' \<longrightarrow> delivered w' = delivered w)))"
proof -
  from inv_run [OF assms(1,2)] have i0: "inv w0" .
  with assms(3) have f: "cacheError w0 = None" "errorSends w0 = 0" "\<not> intakeBlocked w0"
    "\<not> userStop w0 \<longrightarrow> live (pc w0)"
    by (auto simp: inv_def inv_slot_def)
  from assms(4) have room: "length (cacheIncoming w0) + length cs \<le> cacheIncomingCap w0"
    by simp
  from fill_buffer [OF relevant_changes_prefix [OF assms(5)] assms(3) f(3) room]
  obtain w1 where w1: "run cs w0 = Some w1" "registered w1" "\<not> intakeBlocked w1"
    "length (cacheIncoming w1) = length (cacheIncoming w0) + length cs"
    "cacheIncomingCap w1 = cacheIncomingCap w0" "cacheError w1 = cacheError w0"
    "errorSends w1 = errorSends w0" "pc w1 = pc w0" "userStop w1 = userStop w0"
    "delivered w1 = delivered w0"
    by blast
  from fill_buffer_rest [OF assms(5,3) f(3) room] w1(1)
  have "relevant_changes [Notify c g] w1" by auto
  then have rel: "relevant g c w1" by simp
  from w1(4,5) assms(4) have full: "cacheIncomingCap w1 \<le> length (cacheIncoming w1)"
    by simp
  from w1(6) f(1) have none: "cacheError w1 = None" by simp
  from overflow_step [OF rel w1(2,3) full none]
  obtain w2 msg where w2: "exec (Notify c g) w1 = Some w2" "\<not> registered w2"
    "cacheError w2 = Some msg"
    "msg = ''delete notification timeout'' \<or> msg = ''add notification timeout''"
    "errorSends w2 = errorSends w1 + 1" "cacheIncoming w2 = cacheIncoming w1"
    "enqueued w2 = enqueued w1" "pc w2 = pc w1" "delivered w2 = delivered w1"
    "userStop w2 = userStop w1"
    by blast
  from w1(1) w2(1) have "run (cs @ [Notify c g]) w0 = Some w2"
    by (simp add: run_snoc)
  from inv_run_from [OF i0 this] have i2: "inv w2" .
  from w2(2,3,5,8,10) w1(7,8,9) f(2,4) have p2: "err_progress msg w2"
    by (simp add: err_progress_def)
  have after: "errorSends w = 1 \<and> \<not> registered w \<and>
         length (filter (\<lambda>e. Type e = Error) (delivered w)) \<le> 1 \<and>
         length (filter (\<lambda>a. \<not> is_stop a) as) + relay_rank w \<le> relay_rank w2 \<and>
         (\<not> userStop w \<and> pc w \<noteq> Exited \<longrightarrow>
            (\<exists>a v. \<not> is_stop a \<and> \<not> is_notify a \<and> exec a w = Some v)) \<and>
         (\<not> userStop w \<and> pc w = Exited \<longrightarrow>
            outgoingClosed w \<and>
            (\<exists>evs. delivered w = evs @ [\<lparr>Type = Error, Object = Status msg\<rparr>] \<and>
                   (\<forall>e \<in> set evs. Type e \<noteq> Error))) \<and>
         (pc w = Exited \<longrightarrow> (\<forall>as' w'. run as' w = Some w' \<longrightarrow> delivered w' = delivered w))"
    if r: "run as w2 = Some w" for as w
  proof -
    from err_progress_run [OF r p2 i2] have p: "err_progress msg w" .
    from inv_run_from [OF i2 r] have i: "inv w" .
    from p have 1: "errorSends w = 1" "\<not> registered w" by (simp_all add: err_progress_def)
    from i have "\<forall>e \<in> set (butlast (delivered w)). \<not> is_error e"
      by (simp add: inv_def inv_events_def)
    from one_error_last [OF this]
    have 2: "length (filter (\<lambda>e. Type e = Error) (delivered w)) \<le> 1"
      by (simp add: is_error_def [abs_def])
    from rank_run [OF r w2(2) i2]
    have 3: "length (filter (\<lambda>a. \<not> is_stop a) as) + relay_rank w \<le> relay_rank w2" .
    have 4: "\<exists>a v. \<not> is_stop a \<and> \<not> is_notify a \<and> exec a w = Some v"
      if "\<not> userStop w" "pc w \<noteq> Exited"
      using err_progress_enabled [OF p that] .
    have 5: "outgoingClosed w \<and>
            (\<exists>evs. delivered w = evs @ [\<lparr>Type = Error, Object = Status msg\<rparr>] \<and>
                   (\<forall>e \<in> set evs. Type e \<noteq> Error))"
      if "\<not> userStop w" "pc w = Exited"
      using exited_delivery [OF p i that] by (simp add: makeErrorEvent_explicit is_error_def)
    have 6: "delivered w' = delivered w" if "pc w = Exited" "run as' w = Some w'" for as' w'
      using finishing_run [OF that(2)] that(1) by simp
    from 1 2 3 4 5 6 show ?thesis by blast
  qed
  from w1(1,2,7,8,10) none w1(4,5) assms(4) f(2) w2(1-9) after show ?thesis
    by (intro exI [of _ w1] exI [of _ w2] exI [of _ msg]) simp
qed

text \<open>
  The scenario of the specification on a watcher whose loop already waits in its steady
  phase: capacity two, grants for \<open>a\<close>, \<open>b\<close> and \<open>c\<close> with no draining in between; the
  consumer receives Added \<open>a\<close>, Added \<open>b\<close>, then the error, and the stream closes.
\<close>

theorem overflow_terminal_witness:
  "fresh small_watcher \<and>
   (\<exists>w0. run [Advance] small_watcher = Some w0 \<and> pc w0 = Steady \<and> registered w0 \<and>
      length (cacheIncoming w0) +
        length [Notify (grant ''a'') all_namespaces, Notify (grant ''b'') all_namespaces] =
        cacheIncomingCap w0 \<and>
      relevant_changes
        ([Notify (grant ''a'') all_namespaces, Notify (grant ''b'') all_namespaces] @
         [Notify (grant ''c'') all_namespaces]) w0 \<and>
      (\<exists>w. run ([Notify (grant ''a'') all_namespaces, Notify (grant ''b'') all_namespaces] @
                [Notify (grant ''c'') all_namespaces] @
                [RecvEvent, SendOutgoing, RecvEvent, SendOutgoing, RecvError, SendOutgoing,
                 Advance, Advance]) w0 = Some w \<and>
           pc w = Exited \<and> outgoingClosed w \<and> \<not> registered w \<and> errorSends w = 1 \<and>
           length (filter (\<lambda>e. Type e = Error) (delivered w)) \<le> 1 \<and>
           delivered w =
             [\<lparr>Type = Added, Object = Project \<lparr>Name = ''a'', ResourceVersion = ''1''\<rparr>\<rparr>,
              \<lparr>Type = Added, Object = Project \<lparr>Name = ''b'', ResourceVersion = ''1''\<rparr>\<rparr>,
              \<lparr>Type = Error, Object = Status ''add notification timeout''\<rparr>]))"
proof -
  let ?cs = "[Notify (grant ''a'') all_namespaces, Notify (grant ''b'') all_namespaces]"
  let ?n = "Notify (grant ''c'') all_namespaces"
  let ?rest = "[RecvEvent, SendOutgoing, RecvEvent, SendOutgoing, RecvError, SendOutgoing,
              Advance, Advance]"
  have f: "fresh small_watcher"
    by (simp add: small_watcher_def fresh_def eval_simps)
  obtain w0 where r0: "run [Advance] small_watcher = Some w0"
    and h: "pc w0 = Steady" "registered w0"
      "length (cacheIncoming w0) + length ?cs = cacheIncomingCap w0"
      "relevant_changes (?cs @ [?n]) w0"
    and ex: "\<exists>w. run (?cs @ [?n] @ ?rest) w0 = Some w \<and> pc w = Exited \<and> \<not> userStop w \<and>
      delivered w =
          [\<lparr>Type = Added, Object = Project \<lparr>Name = ''a'', ResourceVersion = ''1''\<rparr>\<rparr>,
           \<lparr>Type = Added, Object = Project \<lparr>Name = ''b'', ResourceVersion = ''1''\<rparr>\<rparr>,
           \<lparr>Type = Error, Object = Status ''add notification timeout''\<rparr>]"
    by (simp add: small_watcher_def relevant_def eval_simps)
  from ex obtain w where r: "run (?cs @ [?n] @ ?rest) w0 = Some w"
    and q: "pc w = Exited" "\<not> userStop w"
      "delivered w =
          [\<lparr>Type = Added, Object = Project \<lparr>Name = ''a'', ResourceVersion = ''1''\<rparr>\<rparr>,
           \<lparr>Type = Added, Object = Project \<lparr>Name = ''b'', ResourceVersion = ''1''\<rparr>\<rparr>,
           \<lparr>Type = Error, Object = Status ''add notification timeout''\<rparr>]"
    by blast
  from overflow_terminal [OF f r0 h(2-4)] obtain w1 w2 msg where
    t: "run ?cs w0 = Some w1" "exec ?n w1 = Some w2"
    and a: "\<forall>as w. run as w2 = Some w \<longrightarrow>
         errorSends w = 1 \<and> \<not> registered w \<and>
         length (filter (\<lambda>e. Type e = Error) (delivered w)) \<le> 1 \<and>
         length (filter (\<lambda>a. \<not> is_stop a) as) + relay_rank w \<le> relay_rank w2 \<and>
         (\<not> userStop w \<and> pc w \<noteq> Exited \<longrightarrow>
            (\<exists>a v. \<not> is_stop a \<and> \<not> is_notify a \<and> exec a w = Some v)) \<and>
         (\<not> userStop w \<and> pc w = Exited \<longrightarrow>
            outgoingClosed w \<and>
            (\<exists>evs. delivered w = evs @ [\<lparr>Type = Error, Object = Status msg\<rparr>] \<and>
                   (\<forall>e \<in> set evs. Type e \<noteq> Error))) \<and>
         (pc w = Exited \<longrightarrow> (\<forall>as' w'. run as' w = Some w' \<longrightarrow> delivered w' = delivered w))"
    by blast
  from r t have "run ?rest w2 = Some w"
    by (simp only: run_append run.simps option.case)
  with a q(1,2) have "errorSends w = 1" "\<not> registered w"
    "length (filter (\<lambda>e. Type e = Error) (delivered w)) \<le> 1" "outgoingClosed w"
    by blast+
  with f r0 h r q show ?thesis by blast
qed

text \<open>
  Claim C5, as stated, fails in its first half. After 1001 changes of \<open>a\<close> with no
  draining the error slot is set and nothing has been delivered; the loop then enters
  its steady phase, where the buffer and the error slot are both ready, takes an event
  from the buffer and hands it over: a non-error event produced after the slot was set.
\<close>

theorem error_slot_counterexample:
  "run (flood ''a'' 1000 @ [Notify (grant ''a'') all_namespaces]) late_error_start =
     Some late_error_overflowed \<and>
   cacheError late_error_overflowed = Some ''add notification timeout'' \<and>
   delivered late_error_overflowed = [] \<and>
   map_option delivered (run [Advance, RecvEvent, SendOutgoing] late_error_overflowed) =
     Some [modified_event ''a''] \<and>
   \<not> is_error (modified_event ''a'')"
proof -
  have 1: "cacheError late_error_overflowed = Some ''add notification timeout''"
    "delivered late_error_overflowed = []"
    by (simp_all add: late_error_overflowed_def late_error_start_def eval_simps)
  have 2: "map_option delivered (run [Advance, RecvEvent, SendOutgoing] late_error_overflowed) =
     Some [modified_event ''a'']"
    by (simp add: late_error_overflowed_def late_error_start_def replicate_1000 eval_simps)
  have 3: "\<not> is_error (modified_event ''a'')"
    by (simp add: is_error_def modified_event_def)
  from late_error_overflow 1 2 3 show ?thesis by simp
qed

text \<open>
  Claim C5, amended. In every run there is at most one send on \<open>cacheError\<close> and no send
  ever finds the slot occupied; the consumer receives at most one Error event, no event
  before the last one is an Error event, and an Error event has been delivered only when
  the loop has left its body. Once the loop has received the error from the slot, the
  only event it can still deliver is that Error event, and once it has left its body it
  delivers nothing; the stream is closed only after the loop has exited. (Between the
  moment the slot is set and the moment the loop receives from it, buffered events may
  still be delivered.)
\<close>

theorem error_slot_terminal:
  assumes "fresh w0" "run as w0 = Some w"
  shows "errorSends w \<le> 1 \<and> \<not> intakeBlocked w \<and>
         length (filter is_error (delivered w)) \<le> 1 \<and>
         (\<forall>e \<in> set (butlast (delivered w)). \<not> is_error e) \<and>
         ((\<exists>e \<in> set (delivered w). is_error e) \<longrightarrow> finishing (pc w)) \<and>
         (\<forall>e. pc w = Emitting e Returning \<longrightarrow>
            is_error e \<and>
            (\<forall>as' w'. run as' w = Some w' \<longrightarrow>
               delivered w' = delivered w \<or> delivered w' = delivered w @ [e])) \<and>
         (finishing (pc w) \<longrightarrow>
            (\<forall>as' w'. run as' w = Some w' \<longrightarrow> delivered w' = delivered w)) \<and>
         (outgoingClosed w \<longrightarrow> pc w = Exited)"
proof -
  from inv_run [OF assms] have s: "inv_slot w" and e: "inv_events w" and r: "inv_relay w"
    by (simp_all add: inv_def)
  from s have 1: "errorSends w \<le> 1" "\<not> intakeBlocked w"
    by (simp_all add: inv_slot_def)
  from e have 3: "\<forall>e \<in> set (butlast (delivered w)). \<not> is_error e"
    and 4: "(\<exists>e \<in> set (delivered w). is_error e) \<longrightarrow> finishing (pc w)"
    and ok: "pc_ok (pc w)"
    by (auto simp: inv_events_def)
  from one_error_last [OF 3] have 2: "length (filter is_error (delivered w)) \<le> 1" .
  have 5: "is_error e \<and>
            (\<forall>as' w'. run as' w = Some w' \<longrightarrow>
               delivered w' = delivered w \<or> delivered w' = delivered w @ [e])"
    if "pc w = Emitting e Returning" for e
    using that ok error_taken_run [of _ w _ e] by auto
  have 6: "\<forall>as' w'. run as' w = Some w' \<longrightarrow> delivered w' = delivered w" if "finishing (pc w)"
    using that finishing_run [of _ w] by blast
  from r have 7: "outgoingClosed w \<longrightarrow> pc w = Exited"
    by (cases "pc w") (simp_all add: inv_relay_def)
  from 1 2 3 4 5 6 7 show ?thesis by blast
qed

text \<open>
  An overflow after which the loop takes the error first: the consumer receives the
  Error event only, and the stream closes.
\<close>

theorem error_slot_terminal_witness:
  "fresh late_error_start \<and>
   (\<exists>w. run ((flood ''a'' 1000 @ [Notify (grant ''a'') all_namespaces]) @
             [Advance, RecvError, SendOutgoing, Advance, Advance]) late_error_start = Some w \<and>
        delivered w = [\<lparr>Type = Error, Object = Status ''add notification timeout''\<rparr>] \<and>
        outgoingClosed w \<and> pc w = Exited \<and> errorSends w \<le> 1 \<and> \<not> intakeBlocked w \<and>
        length (filter is_error (delivered w)) \<le> 1)"
proof -
  have f: "fresh late_error_start"
    by (simp add: late_error_start_def example_fresh)
  obtain w where r0: "run [Advance, RecvError, SendOutgoing, Advance, Advance] late_error_overflowed = Some w"
    and q: "delivered w = [\<lparr>Type = Error, Object = Status ''add notification timeout''\<rparr>]"
      "outgoingClosed w" "pc w = Exited"
    by (simp add: late_error_overflowed_def late_error_start_def eval_simps)
  from late_error_overflow r0
  have r: "run ((flood ''a'' 1000 @ [Notify (grant ''a'') all_namespaces]) @
             [Advance, RecvError, SendOutgoing, Advance, Advance]) late_error_start = Some w"
    by (simp only: run_append option.case)
  from error_slot_terminal [OF f r]
  have "errorSends w \<le> 1" "\<not> intakeBlocked w" "length (filter is_error (delivered w)) \<le> 1"
    by blast+
  with f r q show ?thesis by blast
qed

section \<open>The known set\<close>

text \<open>
  Claim C4, as stated, fails in the overflow branch. A watcher that knows \<open>a\<close> and \<open>b\<close>
  loses \<open>b\<close> (a Deleted event is enqueued), 999 changes of \<open>a\<close> fill the buffer of 1000,
  and a grant of \<open>b\<close> overflows: \<open>b\<close> is inserted into \<open>knownProjects\<close> although no event
  is enqueued, so the last event enqueued for \<open>b\<close> is still Deleted.
\<close>

theorem known_set_overflow_counterexample:
  "run known_overflow_schedule known_overflow_start = Some known_overflow_end \<and>
   ''b'' \<in> knownProjects known_overflow_end \<and>
   last_event_type ''b'' (enqueued known_overflow_end) = Some Deleted \<and>
   \<not> known_inv (knownProjects known_overflow_start) known_overflow_end"
proof -
  let ?d = "\<lparr>Type = Deleted, Object = Project \<lparr>Name = ''b'', ResourceVersion = []\<rparr>\<rparr>"
  let ?w1 = "known_overflow_start\<lparr>cacheIncoming := [?d], knownProjects := {''a''}, enqueued := [?d]\<rparr>"
  let ?w2 = "?w1\<lparr>cacheIncoming := cacheIncoming ?w1 @ replicate 999 (modified_event ''a''),
                   enqueued := enqueued ?w1 @ replicate 999 (modified_event ''a'')\<rparr>"
  have 1: "exec (Notify (revoke ''b'') all_namespaces) known_overflow_start = Some ?w1"
    by (simp add: known_overflow_start_def eval_simps) 
  have 2: "run (flood ''a'' 999) ?w1 = Some ?w2"
    by (rule flood_run) (simp_all add: known_overflow_start_def example_watcher_simps eval_simps)
  have 3: "exec (Notify (grant ''b'') all_namespaces) ?w2 = Some known_overflow_end"
    by (simp add: known_overflow_end_def known_overflow_start_def eval_simps insert_commute)
  from 1 2 3 have r: "run known_overflow_schedule known_overflow_start = Some known_overflow_end"
    by (simp add: known_overflow_schedule_def run_append)
  have k: "''b'' \<in> knownProjects known_overflow_end"
    by (simp add: known_overflow_end_def)
  have "last_event_type ''b'' ([?d] @ replicate 999 (modified_event ''a'')) = last_event_type ''b'' [?d]"
    by (rule last_event_type_replicate) (simp add: modified_event_def)
  then have l: "last_event_type ''b'' (enqueued known_overflow_end) = Some Deleted"
    by (simp add: known_overflow_end_def)
  have "\<not> known_inv (knownProjects known_overflow_start) known_overflow_end"
  proof
    assume "known_inv (knownProjects known_overflow_start) known_overflow_end"
    then have "''b'' \<in> knownProjects known_overflow_end \<longleftrightarrow>
        (case last_event_type ''b'' (enqueued known_overflow_end) of
           None \<Rightarrow> ''b'' \<in> knownProjects known_overflow_start
         | Some t \<Rightarrow> t = Added \<or> t = Modified)"
      unfolding known_inv_def by blast
    with k l show False by simp
  qed
  with r k l show ?thesis by simp
qed

text \<open>
  Claim C4, amended. From construction onward and after every handler call, as long as
  no call has overflowed, a name is in \<open>knownProjects\<close> iff the last event enqueued for it
  is Added or Modified or, when no event has been enqueued for it, iff it was in the list
  the watcher was constructed from.
\<close>

theorem known_set_invariant:
  assumes "fresh w0" "run as w0 = Some w" "errorSends w = 0"
  shows "known_inv (knownProjects w0) w"
  using known_inv_run [OF assms(2,3,1)] .

text \<open>A watcher that knows \<open>a\<close> gains \<open>b\<close> and loses \<open>a\<close>.\<close>

theorem known_set_invariant_witness:
  "fresh (example_watcher [\<lparr>Name = ''a'', ResourceVersion = ''1''\<rparr>] False) \<and>
   (\<exists>w. run [Notify (grant ''b'') all_namespaces, Notify (revoke ''a'') all_namespaces]
          (example_watcher [\<lparr>Name = ''a'', ResourceVersion = ''1''\<rparr>] False) = Some w \<and>
        errorSends w = 0 \<and> knownProjects w = {''b''} \<and>
        known_inv {''a''} w)"
proof -
  let ?w0 = "example_watcher [\<lparr>Name = ''a'', ResourceVersion = ''1''\<rparr>] False"
  have f: "fresh ?w0" by (rule example_fresh)
  obtain w where r: "run [Notify (grant ''b'') all_namespaces, Notify (revoke ''a'') all_namespaces] ?w0 = Some w"
    and p: "errorSends w = 0" "knownProjects w = {''b''}"
    by (auto simp add: eval_simps)
  have k: "knownProjects ?w0 = {''a''}" by (simp add: example_watcher_simps)
  from known_set_invariant [OF f r p(1)] k f r p show ?thesis by simp
qed

end
